theory Spec2Isabelle
  imports Main "HOL-Library.Sublist"
begin

section \<open>The Jira source: replies, errors and observable events\<close>

text \<open>
  The records of \<^verbatim>\<open>interface JiraIssue\<close>, field by field. An object that the
  interface declares with the single member \<^verbatim>\<open>name\<close> is a \<open>named\<close>; a member declared
  \<^verbatim>\<open>T | null\<close> is an \<open>option\<close>. The description and the paragraphs of a description are
  options too, because \<^verbatim>\<open>formatDescription\<close> reads them through \<^verbatim>\<open>?.\<close>. Numbers are
  integers (Jira reports seconds and counts).
\<close>

record named =
  name :: string

record user =
  displayName :: string
  emailAddress :: string

record project =
  project_key :: string
  project_name :: string

text \<open>\<^verbatim>\<open>{ key: string; fields: { summary: string } }\<close>\<close>

record issue_ref =
  ref_key :: string
  ref_summary :: string

text \<open>Of \<^verbatim>\<open>type\<close> only \<^verbatim>\<open>name\<close> is read.\<close>

record issue_link =
  link_type :: named
  inwardIssue :: "issue_ref option"
  outwardIssue :: "issue_ref option"

text \<open>Of an attachment only \<^verbatim>\<open>filename\<close> is read.\<close>

record attachment_file =
  filename :: string
  attachment_content :: string

text \<open>A comment body is \<^verbatim>\<open>{ content: Array<{ content: Array<{ text }> }> }\<close>.\<close>

record issue_comment =
  author :: user
  comment_created :: string
  body :: "string list list"

record issue_fields =
  summary :: string
  description :: "string list option list option"
  issuetype :: named
  status :: named
  priority :: named
  assignee :: "user option"
  reporter :: user
  project :: project
  created :: string
  updated :: string
  resolutiondate :: "string option"
  resolution :: "named option"
  labels :: "string list"
  components :: "named list"
  sprint :: "named option"
  epic :: "named option"
  timeoriginalestimate :: "int option"
  timeestimate :: "int option"
  timespent :: "int option"
  votes :: int
  watches :: int
  fixVersions :: "named list"
  versions :: "named list"
  subtasks :: "issue_ref list"
  issuelinks :: "issue_link list"
  attachment :: "attachment_file list"
  comment :: "issue_comment list"

record JiraIssue =
  issue_id :: string
  key :: string
  self :: string
  issue_fields :: issue_fields

text \<open>
  What a rejected \<^verbatim>\<open>axios\<close> call throws: an Axios error that carries a response (its
  status and its \<^verbatim>\<open>retry-after\<close> header, if any), an Axios error without a response
  (a network failure), or some other exception.
\<close>

datatype js_error =
    AxiosResponseError nat "string option"
  | AxiosNoResponse
  | NonAxiosError

text \<open>
  One answer of the Jira search endpoint: a page (\<^verbatim>\<open>data.issues\<close>, \<^verbatim>\<open>data.total\<close>) or a
  rejection.
\<close>

datatype jira_reply =
    Page "JiraIssue list" nat
  | Failure js_error

text \<open>
  A number of JavaScript that came out of integer arithmetic: \<^verbatim>\<open>NaN\<close>, an integer below
  \<^verbatim>\<open>2^53\<close> in magnitude (every such integer is a double, and sums and products that stay in
  this range are exact; minus zero is \<open>Exact 0\<close>), or \<open>Huge\<close>: a double of magnitude
  \<^verbatim>\<open>2^53\<close> or more, or an infinity, the rounded result of a computation that left the
  range. Which double a \<open>Huge\<close> is, is not modelled.
\<close>

datatype js_number = NaN | Exact int | Huge

definition to_number :: "int \<Rightarrow> js_number" where
  "to_number i = (if \<bar>i\<bar> < 2 ^ 53 then Exact i else Huge)"

text \<open>
  Everything the program does that can be observed from outside, in the order it happens:
  the requests it sends, the timers it waits for (\<open>Sleep\<close> holds the delay handed to
  \<^verbatim>\<open>setTimeout\<close>) and the lines it prints.
\<close>

datatype event =
    JiraPost nat
  | Sleep js_number
  | LogRateLimited js_number
  | LogRetrieved nat nat
  | ErrFetching js_error
  | LogFinalTotal nat
  | LogFound nat
  | DustPost string string
  | LogUpserted string
  | ErrUpserting string js_error
  | LogAllProcessed
  | ErrOccurred js_error

section \<open>Reading the retry-after header\<close>

definition is_digit :: "char \<Rightarrow> bool" where
  "is_digit c = (48 \<le> (of_char c :: nat) \<and> (of_char c :: nat) \<le> 57)"

text \<open>
  The white space and line terminators of JavaScript among the code units below 256:
  tab, line feed, vertical tab, form feed, carriage return, space, no-break space.
\<close>

definition is_space :: "char \<Rightarrow> bool" where
  "is_space c = (of_char c \<in> {9, 10, 11, 12, 13, 32, 160 :: nat})"

definition digit_val :: "char \<Rightarrow> int" where
  "digit_val c = int (of_char c) - 48"

definition digits_val :: "string \<Rightarrow> int" where
  "digits_val ds = foldl (\<lambda>n c. 10 * n + digit_val c) 0 ds"

text \<open>
  \<^verbatim>\<open>parseInt(s, 10)\<close>: skip leading white space, read an optional sign, then the longest
  run of decimal digits. Without a digit the result is \<^verbatim>\<open>NaN\<close>; otherwise it is the double
  nearest to the integer that the digits write: that integer when it is below \<^verbatim>\<open>2^53\<close> in
  magnitude, a \<open>Huge\<close> number when it is not.
\<close>

definition parseInt :: "string \<Rightarrow> js_number" where
  "parseInt s =
     (let t = dropWhile is_space s;
          neg = (case t of [] \<Rightarrow> False | c # _ \<Rightarrow> c = CHR ''-'');
          u = (case t of [] \<Rightarrow> [] | c # r \<Rightarrow> if c = CHR ''-'' \<or> c = CHR ''+'' then r else t);
          ds = takeWhile is_digit u
      in if ds = [] then NaN
         else to_number (if neg then - digits_val ds else digits_val ds))"

text \<open>\<^verbatim>\<open>parseInt(error.response.headers["retry-after"] || "60", 10)\<close>\<close>

definition retryAfter :: "string option \<Rightarrow> js_number" where
  "retryAfter h =
     parseInt (case h of None \<Rightarrow> ''60'' | Some v \<Rightarrow> if v = [] then ''60'' else v)"

text \<open>
  \<^verbatim>\<open>retryAfter * 1000\<close>, the argument of \<^verbatim>\<open>setTimeout\<close>: \<^verbatim>\<open>NaN * 1000\<close> is \<^verbatim>\<open>NaN\<close>, the
  product of an integer is exact while it stays below \<^verbatim>\<open>2^53\<close> and \<open>Huge\<close> when it does
  not, and a \<open>Huge\<close> number stays \<open>Huge\<close>.
\<close>

definition millis :: "js_number \<Rightarrow> js_number" where
  "millis r = (case r of NaN \<Rightarrow> NaN | Exact n \<Rightarrow> to_number (n * 1000) | Huge \<Rightarrow> Huge)"

section \<open>The paginated fetcher\<close>

definition maxResults :: nat where
  "maxResults = 50"

text \<open>
  The source is a machine: from its state and the \<^verbatim>\<open>startAt\<close> of a request it gives a
  reply and its next state. \<open>makeRequest\<close> returns what the call returns or throws, the
  events of the call, and the source's state after it.
\<close>

type_synonym 's source = "'s \<Rightarrow> nat \<Rightarrow> jira_reply \<times> 's"

function makeRequest ::
  "'s source \<Rightarrow> nat \<Rightarrow> nat \<Rightarrow> 's \<Rightarrow> (js_error + JiraIssue list \<times> nat) \<times> event list \<times> 's"
where
  "makeRequest src startAt retryCount s =
     (case src s startAt of
        (Page issues tot, s') \<Rightarrow> (Inr (issues, tot), [JiraPost startAt], s')
      | (Failure err, s') \<Rightarrow>
          (case err of
             AxiosResponseError st hdr \<Rightarrow>
               if st = 429 \<and> retryCount < 3 then
                 (case makeRequest src startAt (retryCount + 1) s' of
                    (r, evs, s'') \<Rightarrow>
                      (r, [JiraPost startAt, LogRateLimited (retryAfter hdr),
                           Sleep (millis (retryAfter hdr))] @ evs, s''))
               else (Inl err, [JiraPost startAt], s')
           | _ \<Rightarrow> (Inl err, [JiraPost startAt], s')))"
  by pat_completeness auto
termination
  by (relation "measure (\<lambda>(src, startAt, retryCount, s). 3 - retryCount)") auto

declare makeRequest.simps [simp del]

text \<open>The variables of \<^verbatim>\<open>getIssuesUpdatedLast24Hours\<close>, with the trace so far.\<close>

record 's fetch_state =
  allIssues :: "JiraIssue list"
  startAt :: nat
  total_reported :: nat
  trace :: "event list"
  source_state :: 's

text \<open>
  The \<^verbatim>\<open>do { try { ... } catch { ...; break } } while (allIssues.length < total)\<close>
  loop. It may run forever: \<open>None\<close> is a loop that never exits.
\<close>

partial_function (option) fetch_loop :: "'s source \<Rightarrow> 's fetch_state \<Rightarrow> 's fetch_state option"
where
  "fetch_loop src st =
     (case makeRequest src (startAt st) 0 (source_state st) of
        (Inr (issues, tot), evs, s') \<Rightarrow>
          (let st' = \<lparr> allIssues = allIssues st @ issues,
                       startAt = startAt st + maxResults,
                       total_reported = tot,
                       trace = trace st @ evs @ [LogRetrieved (length (allIssues st @ issues)) tot],
                       source_state = s' \<rparr>
           in if length (allIssues st') < total_reported st' then fetch_loop src st' else Some st')
      | (Inl err, evs, s') \<Rightarrow>
          Some (st \<lparr> trace := trace st @ evs @ [ErrFetching err], source_state := s' \<rparr>))"

declare fetch_loop.simps [code]

text \<open>The result of a fetch: the returned array and what happened on the way.\<close>

definition getIssuesUpdatedLast24Hours :: "'s source \<Rightarrow> 's \<Rightarrow> (JiraIssue list \<times> event list) option"
where
  "getIssuesUpdatedLast24Hours src s0 =
     map_option
       (\<lambda>st. (allIssues st, trace st @ [LogFinalTotal (length (allIssues st))]))
       (fetch_loop src \<lparr> allIssues = [], startAt = 0, total_reported = 0, trace = [], source_state = s0 \<rparr>)"


text \<open>The \<^verbatim>\<open>startAt\<close> of every request in a trace, in order.\<close>

fun offset_of :: "event \<Rightarrow> nat list" where
  "offset_of (JiraPost off) = [off]"
| "offset_of _ = []"

definition jira_offsets :: "event list \<Rightarrow> nat list" where
  "jira_offsets tr = concat (map offset_of tr)"


fun is_retrieved :: "event \<Rightarrow> bool" where
  "is_retrieved (LogRetrieved n t) = True"
| "is_retrieved _ = False"

section \<open>The document formatter\<close>

text \<open>\<^verbatim>\<open>Array.prototype.join\<close> on an array of strings.\<close>

fun join :: "string \<Rightarrow> string list \<Rightarrow> string" where
  "join sep [] = []"
| "join sep [x] = x"
| "join sep (x # y # ys) = x @ sep @ join sep (y # ys)"

text \<open>
  An integer in a template literal: its decimal digits, with a minus sign below zero.
  This is what JavaScript prints for every integer below \<^verbatim>\<open>10^21\<close> in magnitude, which
  covers the counts and the seconds that Jira reports; from \<^verbatim>\<open>10^21\<close> on JavaScript
  prints an exponent form, which is not modelled.
\<close>

function digits_of :: "nat \<Rightarrow> string" where
  "digits_of n =
     (if n < 10 then [char_of (48 + n)] else digits_of (n div 10) @ [char_of (48 + n mod 10)])"
  by pat_completeness auto
termination
  by (relation "measure id") auto

declare digits_of.simps [simp del]

definition number_to_string :: "int \<Rightarrow> string" where
  "number_to_string i = (if i < 0 then ''-'' @ digits_of (nat (- i)) else digits_of (nat i))"

text \<open>\<^verbatim>\<open>value || "N/A"\<close> on a \<^verbatim>\<open>string | null\<close>: the empty string is falsy too.\<close>

definition string_or :: "string option \<Rightarrow> string \<Rightarrow> string" where
  "string_or v d = (case v of None \<Rightarrow> d | Some x \<Rightarrow> if x = [] then d else x)"

text \<open>\<^verbatim>\<open>value || "N/A"\<close> on a \<^verbatim>\<open>number | null\<close>: zero is falsy too.\<close>

definition number_or :: "int option \<Rightarrow> string \<Rightarrow> string" where
  "number_or v d = (case v of None \<Rightarrow> d | Some n \<Rightarrow> if n = 0 then d else number_to_string n)"

text \<open>\<^verbatim>\<open>String.prototype.trim\<close>\<close>

definition trim :: "string \<Rightarrow> string" where
  "trim s = rev (dropWhile is_space (rev (dropWhile is_space s)))"

text \<open>
  A missing paragraph content maps to \<^verbatim>\<open>undefined\<close>, which \<^verbatim>\<open>join\<close> renders as the empty
  string; \<^verbatim>\<open>|| ""\<close> changes nothing on a string.
\<close>

definition formatDescription :: "string list option list option \<Rightarrow> string" where
  "formatDescription d =
     (case d of
        None \<Rightarrow> []
      | Some paragraphs \<Rightarrow>
          join ''\<newline>'' (map (\<lambda>c. case c of None \<Rightarrow> [] | Some texts \<Rightarrow> join [] texts) paragraphs))"

definition formatComment :: "issue_comment \<Rightarrow> string" where
  "formatComment c =
     ''\<newline>['' @ comment_created c @ ''] Author: '' @ displayName (author c) @
     '' ('' @ emailAddress (author c) @ '')\<newline>'' @
     join ''\<newline>'' (map (join []) (body c)) @ ''\<newline>''"

definition formatComments :: "issue_comment list \<Rightarrow> string" where
  "formatComments comments = join ''\<newline>'' (map formatComment comments)"

definition formatUser :: "user \<Rightarrow> string" where
  "formatUser u = displayName u @ '' ('' @ emailAddress u @ '')''"

definition formatRef :: "issue_ref \<Rightarrow> string" where
  "formatRef r = ref_key r @ '': '' @ ref_summary r"

text \<open>\<^verbatim>\<open>link.inwardIssue || link.outwardIssue\<close>, then the label or the empty string.\<close>

definition formatLink :: "issue_link \<Rightarrow> string" where
  "formatLink l =
     (case (case inwardIssue l of Some r \<Rightarrow> Some r | None \<Rightarrow> outwardIssue l) of
        Some linkedIssue \<Rightarrow> name (link_type l) @ '' '' @ formatRef linkedIssue
      | None \<Rightarrow> [])"

text \<open>
  The lines of the template literal of \<^verbatim>\<open>upsertToDustDatasource\<close>, one entry for each
  line of the source between the back quotes: the literal opens with a line break and
  closes with two spaces.
\<close>

definition template_lines :: "JiraIssue \<Rightarrow> string list" where
  "template_lines issue =
     (let f = issue_fields issue in
      [ [],
        ''Issue Key: '' @ key issue,
        ''ID: '' @ issue_id issue,
        ''URL: '' @ self issue,
        ''Summary: '' @ summary f,
        ''Description:'',
        formatDescription (description f),
        [],
        ''Issue Type: '' @ name (issuetype f),
        ''Status: '' @ name (status f),
        ''Priority: '' @ name (priority f),
        ''Assignee: '' @ (case assignee f of Some u \<Rightarrow> formatUser u | None \<Rightarrow> ''Unassigned''),
        ''Reporter: '' @ formatUser (reporter f),
        ''Project: '' @ project_name (project f) @ '' ('' @ project_key (project f) @ '')'',
        ''Created: '' @ created f,
        ''Updated: '' @ updated f,
        ''Resolution: '' @ (case resolution f of Some r \<Rightarrow> name r | None \<Rightarrow> ''Unresolved''),
        ''Resolution Date: '' @ string_or (resolutiondate f) ''N/A'',
        ''Labels: '' @ join '', '' (labels f),
        ''Components: '' @ join '', '' (map name (components f)),
        ''Sprint: '' @ (case sprint f of Some sp \<Rightarrow> name sp | None \<Rightarrow> ''N/A''),
        ''Epic: '' @ (case epic f of Some ep \<Rightarrow> name ep | None \<Rightarrow> ''N/A''),
        ''Time Tracking:'',
        ''  Original Estimate: '' @ number_or (timeoriginalestimate f) ''N/A'',
        ''  Remaining Estimate: '' @ number_or (timeestimate f) ''N/A'',
        ''  Time Spent: '' @ number_or (timespent f) ''N/A'',
        ''Votes: '' @ number_to_string (votes f),
        ''Watches: '' @ number_to_string (watches f),
        ''Fix Versions: '' @ join '', '' (map name (fixVersions f)),
        ''Affected Versions: '' @ join '', '' (map name (versions f)),
        ''Subtasks: '' @ join '', '' (map formatRef (subtasks f)),
        ''Issue Links: '' @ join '', '' (filter (\<lambda>x. x \<noteq> []) (map formatLink (issuelinks f))),
        ''Attachments: '' @ join '', '' (map filename (attachment f)),
        [],
        ''Comments:'',
        formatComments (comment f),
        ''  '' ])"

definition content :: "JiraIssue \<Rightarrow> string" where
  "content issue = trim (join ''\<newline>'' (template_lines issue))"

definition documentId :: "JiraIssue \<Rightarrow> string" where
  "documentId issue = ''issue-'' @ key issue"

text \<open>The lines of a text: \<^verbatim>\<open>text.split("\n")\<close>.\<close>

fun split_lines :: "string \<Rightarrow> string list" where
  "split_lines [] = [[]]"
| "split_lines (c # cs) =
     (if c = CHR 0x0A then [] # split_lines cs
      else (c # hd (split_lines cs)) # tl (split_lines cs))"


section \<open>The rate-limited sink and the orchestrator\<close>

text \<open>
  \<^verbatim>\<open>main\<close> maps every fetched issue to \<^verbatim>\<open>limiter.schedule(() => upsertToDustDatasource(issue))\<close>
  and awaits \<^verbatim>\<open>Promise.all(tasks)\<close>. A task is the promise that \<^verbatim>\<open>schedule\<close> returns: its
  job waits in the limiter's queue, runs, and settles the way \<^verbatim>\<open>upsertToDustDatasource\<close>
  settles (the \<^verbatim>\<open>catch\<close> of that function logs and throws again).
\<close>

datatype task = Queued | Running | Resolved | Rejected js_error

text \<open>The promise of \<^verbatim>\<open>Promise.all(tasks)\<close>.\<close>

datatype promise = Pending | Fulfilled | RejectedWith js_error

record run_state =
  tasks :: "task list"
  all_tasks :: promise
  main_done :: bool
  log :: "event list"

definition DUST_RATE_LIMIT :: nat where
  "DUST_RATE_LIMIT = 120"

text \<open>The limiter's options: \<^verbatim>\<open>maxConcurrent\<close>, and \<^verbatim>\<open>minTime\<close> in milliseconds.\<close>

definition maxConcurrent :: nat where
  "maxConcurrent = DUST_RATE_LIMIT"

definition minTime :: nat where
  "minTime = (60 * 1000) div DUST_RATE_LIMIT"

text \<open>
  What can happen next while \<^verbatim>\<open>main\<close> awaits: the limiter starts the job at the head of
  its queue, the destination answers the request of a running job, or \<^verbatim>\<open>main\<close> continues
  after its \<^verbatim>\<open>await\<close>. The order of these steps is not the program's choice: a run is
  driven by a list of them, and a step that cannot happen at its turn changes nothing.
\<close>

datatype action = Launch | Settle nat | Resume

text \<open>The destination's answer to the request of the \<open>i\<close>-th task: \<open>None\<close> accepts it.\<close>

type_synonym destination = "nat \<Rightarrow> js_error option"

fun first_queued :: "task list \<Rightarrow> nat option" where
  "first_queued [] = None"
| "first_queued (t # ts) = (if t = Queued then Some 0 else map_option Suc (first_queued ts))"

definition running :: "task list \<Rightarrow> nat" where
  "running ts = length (filter (\<lambda>t. t = Running) ts)"

text \<open>\<^verbatim>\<open>Promise.all\<close> of no promise is fulfilled at once.\<close>

definition scheduled :: "JiraIssue list \<Rightarrow> run_state" where
  "scheduled issues =
     \<lparr> tasks = map (\<lambda>issue. Queued) issues,
       all_tasks = (if issues = [] then Fulfilled else Pending),
       main_done = False,
       log = [] \<rparr>"

text \<open>
  \<open>Launch\<close>: the job builds its document and posts it. \<open>Settle i\<close>: the \<^verbatim>\<open>try\<close> of
  \<^verbatim>\<open>upsertToDustDatasource\<close> ends, with the success line or with the error line and the
  error thrown again; \<^verbatim>\<open>Promise.all\<close> is rejected by the first task that rejects and
  fulfilled when every task is resolved. \<open>Resume\<close>: the line after the \<^verbatim>\<open>await\<close>, or the
  \<^verbatim>\<open>catch\<close> of \<^verbatim>\<open>main\<close>.
\<close>

fun step :: "JiraIssue list \<Rightarrow> destination \<Rightarrow> run_state \<Rightarrow> action \<Rightarrow> run_state" where
  "step issues dest st Launch =
     (case first_queued (tasks st) of
        Some i \<Rightarrow>
          if running (tasks st) < maxConcurrent then
            st \<lparr> tasks := (tasks st)[i := Running],
                 log := log st @ [DustPost (documentId (issues ! i)) (content (issues ! i))] \<rparr>
          else st
      | None \<Rightarrow> st)"
| "step issues dest st (Settle i) =
     (if i < length (tasks st) \<and> tasks st ! i = Running then
        (case dest i of
           None \<Rightarrow>
             st \<lparr> tasks := (tasks st)[i := Resolved],
                  all_tasks :=
                    (if all_tasks st = Pending \<and> list_all (\<lambda>t. t = Resolved) ((tasks st)[i := Resolved])
                     then Fulfilled else all_tasks st),
                  log := log st @ [LogUpserted (key (issues ! i))] \<rparr>
         | Some err \<Rightarrow>
             st \<lparr> tasks := (tasks st)[i := Rejected err],
                  all_tasks := (if all_tasks st = Pending then RejectedWith err else all_tasks st),
                  log := log st @ [ErrUpserting (key (issues ! i)) err] \<rparr>)
      else st)"
| "step issues dest st Resume =
     (if main_done st then st
      else (case all_tasks st of
              Pending \<Rightarrow> st
            | Fulfilled \<Rightarrow> st \<lparr> main_done := True, log := log st @ [LogAllProcessed] \<rparr>
            | RejectedWith err \<Rightarrow> st \<lparr> main_done := True, log := log st @ [ErrOccurred err] \<rparr>))"

definition deliver :: "JiraIssue list \<Rightarrow> destination \<Rightarrow> action list \<Rightarrow> run_state" where
  "deliver issues dest sched = foldl (step issues dest) (scheduled issues) sched"

text \<open>Nothing is left to happen: every task has settled and \<^verbatim>\<open>main\<close> has returned.\<close>

definition settled :: "task \<Rightarrow> bool" where
  "settled t = (t \<noteq> Queued \<and> t \<noteq> Running)"

definition quiescent :: "run_state \<Rightarrow> bool" where
  "quiescent st = (list_all settled (tasks st) \<and> main_done st)"


text \<open>
  The run with times. The limiter comes from the \<^verbatim>\<open>bottleneck\<close> package and is taken by
  the contract of its two options: it starts the job at the head of its queue only while
  fewer than \<^verbatim>\<open>maxConcurrent\<close> jobs are running and not before \<^verbatim>\<open>minTime\<close> milliseconds
  have passed since it started the job before. A schedule gives each action the time,
  in milliseconds, at which it is attempted: an action dated before the clock does not
  happen, a \<open>Launch\<close> that the limiter does not allow yet only lets the time pass, and
  \<open>starts\<close> keeps the times at which jobs were started.
\<close>

record timed_state =
  run :: run_state
  clock :: nat
  starts :: "nat list"

definition may_launch :: "nat list \<Rightarrow> nat \<Rightarrow> bool" where
  "may_launch ss t = (ss = [] \<or> last ss + minTime \<le> t)"

fun timed_step :: "JiraIssue list \<Rightarrow> destination \<Rightarrow> timed_state \<Rightarrow> nat \<times> action \<Rightarrow> timed_state" where
  "timed_step issues dest ts (t, Launch) =
     (if t < clock ts then ts
      else if may_launch (starts ts) t \<and> first_queued (tasks (run ts)) \<noteq> None \<and>
              running (tasks (run ts)) < maxConcurrent
      then ts \<lparr> run := step issues dest (run ts) Launch, clock := t, starts := starts ts @ [t] \<rparr>
      else ts \<lparr> clock := t \<rparr>)"
| "timed_step issues dest ts (t, a) =
     (if t < clock ts then ts
      else ts \<lparr> run := step issues dest (run ts) a, clock := t \<rparr>)"

definition timed_deliver :: "JiraIssue list \<Rightarrow> destination \<Rightarrow> (nat \<times> action) list \<Rightarrow> timed_state" where
  "timed_deliver issues dest tsched =
     foldl (timed_step issues dest) \<lparr> run = scheduled issues, clock = 0, starts = [] \<rparr> tsched"

section \<open>Sample data\<close>

text \<open>An issue with every nullable member null and every collection empty.\<close>

definition bare_issue :: "string \<Rightarrow> JiraIssue" where
  "bare_issue k =
     \<lparr> issue_id = ''10001'', key = k, self = ''https://example.atlassian.net/rest/api/3/issue/10001'',
       issue_fields =
         \<lparr> summary = ''Login fails'', description = None,
           issuetype = \<lparr> name = ''Bug'' \<rparr>, status = \<lparr> name = ''Open'' \<rparr>,
           priority = \<lparr> name = ''High'' \<rparr>, assignee = None,
           reporter = \<lparr> displayName = ''Ada'', emailAddress = ''ada@example.com'' \<rparr>,
           project = \<lparr> project_key = ''OPS'', project_name = ''Operations'' \<rparr>,
           created = ''2024-05-01'', updated = ''2024-05-02'',
           resolutiondate = None, resolution = None, labels = [], components = [],
           sprint = None, epic = None,
           timeoriginalestimate = None, timeestimate = None, timespent = None,
           votes = 0, watches = 1, fixVersions = [], versions = [], subtasks = [],
           issuelinks = [], attachment = [], comment = [] \<rparr> \<rparr>"

text \<open>A source that holds a fixed result set and serves it in pages.\<close>

definition static_source :: "JiraIssue list \<Rightarrow> unit source" where
  "static_source db = (\<lambda>s off. (Page (take maxResults (drop off db)) (length db), s))"


text \<open>A source that reports a total of 7 and never returns an issue.\<close>

definition empty_pages :: "unit source" where
  "empty_pages = (\<lambda>s off. (Page [] 7, s))"

text \<open>A source that serves one issue of two and then drops the connection.\<close>

definition broken_source :: "unit source" where
  "broken_source =
     (\<lambda>s off. if off = 0 then (Page [bare_issue ''OPS-1''] 2, s) else (Failure AxiosNoResponse, s))"

text \<open>
  A source that serves one issue of two and from then on answers 429, asking for a wait
  of one second.
\<close>

definition limited_source :: "unit source" where
  "limited_source =
     (\<lambda>s off. if off = 0 then (Page [bare_issue ''OPS-1''] 2, s)
              else (Failure (AxiosResponseError 429 (Some ''1'')), s))"

text \<open>A source that hands out one issue for each request and always reports a total of 2.\<close>

definition trickle_source :: "unit source" where
  "trickle_source = (\<lambda>s off. (Page [bare_issue ''OPS-1''] 2, s))"

text \<open>An issue whose three time-tracking members are the number 0.\<close>

definition zero_time_issue :: JiraIssue where
  "zero_time_issue =
     (bare_issue ''OPS-2'') \<lparr> issue_fields := (issue_fields (bare_issue ''OPS-2''))
        \<lparr> timeoriginalestimate := Some 0, timeestimate := Some 0, timespent := Some 0 \<rparr> \<rparr>"

section \<open>Notions used in the statements and proofs\<close>

text \<open>The loop variables after the \<^verbatim>\<open>try\<close> block has merged a page.\<close>

definition merged :: "'s fetch_state \<Rightarrow> JiraIssue list \<Rightarrow> nat \<Rightarrow> event list \<Rightarrow> 's \<Rightarrow> 's fetch_state" where
  "merged st issues tot evs s' =
     \<lparr> allIssues = allIssues st @ issues,
       startAt = startAt st + maxResults,
       total_reported = tot,
       trace = trace st @ evs @ [LogRetrieved (length (allIssues st @ issues)) tot],
       source_state = s' \<rparr>"

text \<open>Kinds of lines in a log.\<close>

fun is_upserted :: "event \<Rightarrow> bool" where
  "is_upserted (LogUpserted k) = True"
| "is_upserted _ = False"



fun is_rejected :: "task \<Rightarrow> bool" where
  "is_rejected (Rejected e) = True"
| "is_rejected _ = False"

text \<open>How far a task has come, whatever its outcome: waiting, running, settled.\<close>

fun progress_of :: "task \<Rightarrow> nat" where
  "progress_of Queued = 0"
| "progress_of Running = 1"
| "progress_of _ = 2"

text \<open>What the log holds for the \<open>i\<close>-th task, by the state of the task.\<close>

definition logged :: "JiraIssue list \<Rightarrow> destination \<Rightarrow> run_state \<Rightarrow> nat \<Rightarrow> bool" where
  "logged issues dest st i =
     (case tasks st ! i of
        Queued \<Rightarrow> True
      | Running \<Rightarrow> DustPost (documentId (issues ! i)) (content (issues ! i)) \<in> set (log st)
      | Resolved \<Rightarrow> dest i = None \<and>
          DustPost (documentId (issues ! i)) (content (issues ! i)) \<in> set (log st) \<and>
          LogUpserted (key (issues ! i)) \<in> set (log st)
      | Rejected e \<Rightarrow> dest i = Some e \<and>
          DustPost (documentId (issues ! i)) (content (issues ! i)) \<in> set (log st) \<and>
          ErrUpserting (key (issues ! i)) e \<in> set (log st))"

text \<open>How the promise of \<^verbatim>\<open>Promise.all\<close> relates to the tasks.\<close>

definition promise_inv :: "run_state \<Rightarrow> bool" where
  "promise_inv st =
     (case all_tasks st of
        Pending \<Rightarrow> \<not> main_done st \<and> \<not> list_ex is_rejected (tasks st) \<and>
                   list_ex (\<lambda>t. t \<noteq> Resolved) (tasks st)
      | Fulfilled \<Rightarrow> list_all (\<lambda>t. t = Resolved) (tasks st)
      | RejectedWith e \<Rightarrow> Rejected e \<in> set (tasks st))"


text \<open>A bound on the steps that can still change the state.\<close>

definition work_left :: "run_state \<Rightarrow> nat" where
  "work_left st =
     2 * length (filter (\<lambda>t. t = Queued) (tasks st)) + length (filter (\<lambda>t. t = Running) (tasks st)) +
     (if main_done st then 0 else 1)"

text \<open>
  The lines of the template between the line break that opens it and the comments: from
  the issue key to the heading of the comments.
\<close>

definition fixed_lines :: "JiraIssue \<Rightarrow> string list" where
  "fixed_lines issue = butlast (butlast (tl (template_lines issue)))"

text \<open>The requests to the destination in a log, and the request of an issue.\<close>

fun is_post :: "event \<Rightarrow> bool" where
  "is_post (DustPost d c) = True"
| "is_post _ = False"

definition post_of :: "JiraIssue \<Rightarrow> event" where
  "post_of issue = DustPost (documentId issue) (content issue)"

text \<open>Start times in order, each at least \<^verbatim>\<open>minTime\<close> after the one before.\<close>

fun spaced :: "nat list \<Rightarrow> bool" where
  "spaced [] = True"
| "spaced (x # ys) = ((\<forall>y\<in>set ys. x + minTime \<le> y) \<and> spaced ys)"

definition timely :: "timed_state \<Rightarrow> bool" where
  "timely ts = (spaced (starts ts) \<and> (\<forall>x\<in>set (starts ts). x \<le> clock ts))"

section \<open>The fetcher: requests, retries and the loop\<close>

lemma jira_offsets_append [simp]: "jira_offsets (a @ b) = jira_offsets a @ jira_offsets b"
  by (simp add: jira_offsets_def)

lemma jira_offsets_Nil [simp]: "jira_offsets [] = []"
  by (simp add: jira_offsets_def)

lemma jira_offsets_Cons [simp]: "jira_offsets (e # tr) = offset_of e @ jira_offsets tr"
  by (simp add: jira_offsets_def)

lemma makeRequest_page:
  "src s off = (Page issues tot, s') \<Longrightarrow>
   makeRequest src off n s = (Inr (issues, tot), [JiraPost off], s')"
  by (subst makeRequest.simps) simp

lemma makeRequest_not_429:
  "src s off = (Failure e, s') \<Longrightarrow> (\<forall>h. e \<noteq> AxiosResponseError 429 h) \<Longrightarrow>
   makeRequest src off n s = (Inl e, [JiraPost off], s')"
  by (subst makeRequest.simps) (auto split: js_error.splits)

lemma makeRequest_429_retry:
  "src s off = (Failure (AxiosResponseError 429 h), s') \<Longrightarrow> n < 3 \<Longrightarrow>
   makeRequest src off n s =
     (case makeRequest src off (Suc n) s' of
        (r, evs, s'') \<Rightarrow>
          (r, [JiraPost off, LogRateLimited (retryAfter h), Sleep (millis (retryAfter h))] @ evs, s''))"
  by (subst makeRequest.simps) simp

lemma makeRequest_429_exhausted:
  "src s off = (Failure (AxiosResponseError 429 h), s') \<Longrightarrow> 3 \<le> n \<Longrightarrow>
   makeRequest src off n s = (Inl (AxiosResponseError 429 h), [JiraPost off], s')"
  by (subst makeRequest.simps) simp


lemma makeRequest_cases:
  obtains
    (page) issues tot s' where "src s off = (Page issues tot, s')"
      "makeRequest src off n s = (Inr (issues, tot), [JiraPost off], s')"
  | (thrown) e s' where "src s off = (Failure e, s')" "3 \<le> n \<or> (\<forall>h. e \<noteq> AxiosResponseError 429 h)"
      "makeRequest src off n s = (Inl e, [JiraPost off], s')"
  | (retry) h s' r evs s'' where "src s off = (Failure (AxiosResponseError 429 h), s')" "n < 3"
      "makeRequest src off (Suc n) s' = (r, evs, s'')"
      "makeRequest src off n s =
         (r, [JiraPost off, LogRateLimited (retryAfter h), Sleep (millis (retryAfter h))] @ evs, s'')"
proof (cases "src s off")
  case (Pair rep s')
  show ?thesis
  proof (cases rep)
    case (Page issues tot)
    with Pair have src: "src s off = (Page issues tot, s')" by simp
    show ?thesis
      by (rule page[of issues tot s']) (simp_all add: src makeRequest_page[of src s off issues tot s'])
  next
    case (Failure e)
    with Pair have src: "src s off = (Failure e, s')" by simp
    show ?thesis
    proof (cases "\<exists>h. e = AxiosResponseError 429 h")
      case False
      then have ne: "\<forall>h. e \<noteq> AxiosResponseError 429 h" by simp
      show ?thesis
        by (rule thrown[of e s']) (simp_all add: src ne makeRequest_not_429[of src s off e s'])
    next
      case True
      then obtain h where e: "e = AxiosResponseError 429 h" ..
      with src have src': "src s off = (Failure (AxiosResponseError 429 h), s')" by simp
      show ?thesis
      proof (cases "n < 3")
        case False
        then have n: "3 \<le> n" by simp
        show ?thesis
          by (rule thrown[of e s'])
             (simp_all add: src n e makeRequest_429_exhausted[of src s off h s'])
      next
        case True
        obtain r evs s'' where next_try: "makeRequest src off (Suc n) s' = (r, evs, s'')"
          by (cases "makeRequest src off (Suc n) s'") auto
        show ?thesis
          by (rule retry[of h s' r evs s''])
             (simp_all add: src' True next_try makeRequest_429_retry[of src s off h s'])
      qed
    qed
  qed
qed

lemma makeRequest_Inr_from_page:
  "fst (makeRequest src off n s) = Inr (issues, tot) \<Longrightarrow> \<exists>s1 s2. src s1 off = (Page issues tot, s2)"
proof (induction "3 - n" arbitrary: n s)
  case 0
  then show ?case
    by (cases rule: makeRequest_cases[of src s off n]) auto
next
  case (Suc m)
  show ?case
  proof (cases rule: makeRequest_cases[of src s off n])
    case (page issues' tot' s')
    with Suc.prems show ?thesis by auto
  next
    case (thrown e s')
    with Suc.prems show ?thesis by simp
  next
    case (retry h s' r evs s'')
    with Suc.prems have "fst (makeRequest src off (Suc n) s') = Inr (issues, tot)" by simp
    moreover from Suc.hyps(2) have "m = 3 - (Suc n)" by simp
    ultimately show ?thesis using Suc.hyps(1) by blast
  qed
qed



lemma fetch_loop_thrown:
  "makeRequest src (startAt st) 0 (source_state st) = (Inl e, evs, s') \<Longrightarrow>
   fetch_loop src st = Some (st \<lparr> trace := trace st @ evs @ [ErrFetching e], source_state := s' \<rparr>)"
  by (subst fetch_loop.simps) simp

lemma fetch_loop_page:
  "makeRequest src (startAt st) 0 (source_state st) = (Inr (issues, tot), evs, s') \<Longrightarrow>
   fetch_loop src st =
     (if length (allIssues st @ issues) < tot then fetch_loop src (merged st issues tot evs s')
      else Some (merged st issues tot evs s'))"
  by (subst fetch_loop.simps) (simp add: merged_def Let_def)

lemma fetch_loop_terminates:
  assumes progress: "\<And>s off issues tot s'. src s off = (Page issues tot, s') \<Longrightarrow> issues \<noteq> [] \<and> tot \<le> B"
  shows "\<exists>r. fetch_loop src st = Some r"
proof (induction "B - length (allIssues st)" arbitrary: st rule: less_induct)
  case less
  obtain res evs s' where mr: "makeRequest src (startAt st) 0 (source_state st) = (res, evs, s')"
    by (cases "makeRequest src (startAt st) 0 (source_state st)") auto
  show ?case
  proof (cases res)
    case (Inl e)
    with mr show ?thesis by (simp add: fetch_loop_thrown)
  next
    case (Inr p)
    obtain issues tot where p: "p = (issues, tot)" by (cases p) auto
    from mr Inr p have mr': "makeRequest src (startAt st) 0 (source_state st) = (Inr (issues, tot), evs, s')"
      by simp
    then have "fst (makeRequest src (startAt st) 0 (source_state st)) = Inr (issues, tot)" by simp
    then obtain s1 s2 where "src s1 (startAt st) = (Page issues tot, s2)"
      using makeRequest_Inr_from_page[of src "startAt st" 0 "source_state st" issues tot] by blast
    with progress have ne: "issues \<noteq> []" and le: "tot \<le> B" by blast+
    show ?thesis
    proof (cases "length (allIssues st @ issues) < tot")
      case False
      with mr' show ?thesis by (simp add: fetch_loop_page)
    next
      case True
      with ne le have "B - length (allIssues (merged st issues tot evs s')) < B - length (allIssues st)"
        by (cases issues) (auto simp: merged_def)
      from less[OF this] True mr' show ?thesis by (simp add: fetch_loop_page)
    qed
  qed
qed

lemma fetch_loop_empty_pages_aux:
  "fetch_loop src st = Some r \<Longrightarrow>
   (\<forall>s off. \<exists>tot s'. src s off = (Page [] tot, s') \<and> 0 < tot) \<longrightarrow> allIssues st \<noteq> []"
proof (induction rule: fetch_loop.raw_induct[rotated 1, consumes 1])
  case (1 loop src st r)
  show ?case
  proof
    assume empty: "\<forall>s off. \<exists>tot s'. src s off = (Page [] tot, s') \<and> 0 < tot"
    then obtain tot s' where src: "src (source_state st) (startAt st) = (Page [] tot, s')" and pos: "0 < tot"
      by blast
    have mr: "makeRequest src (startAt st) 0 (source_state st) = (Inr ([], tot), [JiraPost (startAt st)], s')"
      by (rule makeRequest_page[of src "source_state st" "startAt st" "[]" tot s', OF src])
    show "allIssues st \<noteq> []"
    proof
      assume nil: "allIssues st = []"
      with 1(2) mr pos have "loop src (merged st [] tot [JiraPost (startAt st)] s') = Some r"
        by (simp add: merged_def)
      from 1(1)[OF this, THEN mp, OF empty] show False by (simp add: merged_def nil)
    qed
  qed
qed

lemma fetch_loop_empty_pages:
  assumes "\<forall>s off. \<exists>tot s'. src s off = (Page [] tot, s') \<and> 0 < tot" "allIssues st = []"
  shows "fetch_loop src st = None"
proof (cases "fetch_loop src st")
  case (Some r)
  from fetch_loop_empty_pages_aux[OF this, THEN mp, OF assms(1)] assms(2) show ?thesis by simp
qed simp

lemma makeRequest_no_retrieved:
  "filter is_retrieved (fst (snd (makeRequest src off n s))) = []"
proof (induction "3 - n" arbitrary: n s)
  case 0
  show ?case
    by (cases rule: makeRequest_cases[of src s off n]) (use 0 in auto)
next
  case (Suc m)
  show ?case
  proof (cases rule: makeRequest_cases[of src s off n])
    case (retry h s' r evs s'')
    from Suc.hyps(2) have "m = 3 - Suc n" by simp
    from Suc.hyps(1)[OF this, of s'] retry show ?thesis by simp
  qed auto
qed

lemma fetch_loop_startAt_aux:
  "fetch_loop src st = Some r \<Longrightarrow>
   startAt r + maxResults * length (filter is_retrieved (trace st)) =
   startAt st + maxResults * length (filter is_retrieved (trace r))"
proof (induction rule: fetch_loop.raw_induct[rotated 1, consumes 1])
  case (1 loop src st r)
  obtain res evs s' where mr: "makeRequest src (startAt st) 0 (source_state st) = (res, evs, s')"
    by (cases "makeRequest src (startAt st) 0 (source_state st)") auto
  have nr: "filter is_retrieved evs = []"
    using makeRequest_no_retrieved[of src "startAt st" 0 "source_state st"] mr by simp
  show ?case
  proof (cases res)
    case (Inl e)
    with 1(2) mr nr show ?thesis by auto
  next
    case (Inr p)
    obtain issues tot where p: "p = (issues, tot)" by (cases p) auto
    show ?thesis
    proof (cases "length (allIssues st @ issues) < tot")
      case False
      with 1(2) mr Inr p nr show ?thesis by (auto simp: Let_def)
    next
      case True
      with 1(2) mr Inr p have "loop src (merged st issues tot evs s') = Some r"
        by (simp add: merged_def)
      from 1(1)[OF this] nr show ?thesis
        by (auto simp: merged_def algebra_simps)
    qed
  qed
qed


lemma static_loop:
  assumes static: "\<And>s off. fst (src s off) = Page (take maxResults (drop off db)) (length db)"
    and acc: "allIssues st = take (k * maxResults) db"
    and off: "startAt st = k * maxResults"
    and enter: "k = 0 \<or> k * maxResults < length db"
  shows "\<exists>r. fetch_loop src st = Some r \<and> allIssues r = db \<and>
           jira_offsets (trace r) =
             jira_offsets (trace st) @
             map (\<lambda>j. j * maxResults) [k..<max (Suc k) ((length db + (maxResults - 1)) div maxResults)]"
  using acc off enter
proof (induction "length db - k * maxResults" arbitrary: k st rule: less_induct)
  case less
  let ?page = "take maxResults (drop (k * maxResults) db)"
  obtain s' where src: "src (source_state st) (startAt st) = (Page ?page (length db), s')"
    using static[of "source_state st" "startAt st"] less.prems(2)
    by (cases "src (source_state st) (startAt st)") auto
  have mr: "makeRequest src (startAt st) 0 (source_state st) =
              (Inr (?page, length db), [JiraPost (startAt st)], s')"
    by (rule makeRequest_page[of src "source_state st" "startAt st" ?page "length db" s', OF src])
  let ?st' = "merged st ?page (length db) [JiraPost (startAt st)] s'"
  have acc': "allIssues ?st' = take (Suc k * maxResults) db"
    by (simp add: merged_def less.prems(1) take_add[symmetric] add.commute)
  have off': "startAt ?st' = Suc k * maxResults"
    by (simp add: merged_def less.prems(2))
  have tr': "jira_offsets (trace ?st') = jira_offsets (trace st) @ [k * maxResults]"
    by (simp add: merged_def less.prems(2))
  have len: "length (allIssues st @ ?page) = min (Suc k * maxResults) (length db)"
    using acc' by (simp add: merged_def)
  show ?case
  proof (cases "Suc k * maxResults < length db")
    case True
    then have dec: "length db - Suc k * maxResults < length db - k * maxResults"
      by (simp add: maxResults_def)
    from less.hyps[OF dec acc' off'] True
    obtain r where r: "fetch_loop src ?st' = Some r" "allIssues r = db"
      "jira_offsets (trace r) = jira_offsets (trace ?st') @
         map (\<lambda>j. j * maxResults) [Suc k..<max (Suc (Suc k)) ((length db + (maxResults - 1)) div maxResults)]"
      by blast
    from True have c: "Suc (Suc k) \<le> (length db + (maxResults - 1)) div maxResults"
      by (simp add: maxResults_def; arith?)
    then have upt: "[k..<max (Suc k) ((length db + (maxResults - 1)) div maxResults)] =
        k # [Suc k..<max (Suc (Suc k)) ((length db + (maxResults - 1)) div maxResults)]"
      by (simp add: max_def upt_conv_Cons)
    from True len have "fetch_loop src st = fetch_loop src ?st'"
      by (simp add: fetch_loop_page[OF mr])
    with r tr' upt show ?thesis by simp
  next
    case False
    then have c: "(length db + (maxResults - 1)) div maxResults \<le> Suc k"
      by (simp add: maxResults_def; arith?)
    from False len have "fetch_loop src st = Some ?st'"
      by (simp add: fetch_loop_page[OF mr])
    moreover from False acc' have "allIssues ?st' = db" by simp
    moreover from c have "[k..<max (Suc k) ((length db + (maxResults - 1)) div maxResults)] = [k]"
      by (simp add: max_def)
    ultimately show ?thesis using tr' by simp
  qed
qed

lemma fetch_from_start:
  "getIssuesUpdatedLast24Hours src s0 =
     map_option (\<lambda>st. (allIssues st, trace st @ [LogFinalTotal (length (allIssues st))]))
       (fetch_loop src \<lparr> allIssues = [], startAt = 0, total_reported = 0, trace = [], source_state = s0 \<rparr>)"
  by (simp add: getIssuesUpdatedLast24Hours_def)

lemma key_bare_issue [simp]: "key (bare_issue k) = k"
  by (simp add: bare_issue_def)

subsection \<open>C1: the number of page requests\<close>

text \<open>
  C1, as amended. A source that holds a result set \<open>db\<close> of \<open>T\<close> issues and answers every
  request with the page at the requested offset and the total \<open>T\<close>: the fetch returns exactly
  \<open>db\<close>, and its requests are at the offsets 0, 50, 100, ..., one for each of the
  \<open>\<lceil>T / 50\<rceil>\<close> pages, and one request also when \<open>T = 0\<close> (the loop tests its condition
  after the body).
\<close>

theorem fetch_pages_of_static_source:
  "(\<forall>s off. fst (src s off) = Page (take maxResults (drop off db)) (length db)) \<Longrightarrow>
   maxResults = 50 \<and>
   (\<exists>tr. getIssuesUpdatedLast24Hours src s0 = Some (db, tr) \<and>
         jira_offsets tr =
           map (\<lambda>k. k * maxResults) [0..<max 1 ((length db + (maxResults - 1)) div maxResults)])"
proof -
  assume static: "\<forall>s off. fst (src s off) = Page (take maxResults (drop off db)) (length db)"
  let ?st0 = "\<lparr> allIssues = [], startAt = 0, total_reported = 0, trace = [], source_state = s0 \<rparr>"
  from static_loop[of src db ?st0 0] static
  obtain r where r: "fetch_loop src ?st0 = Some r" "allIssues r = db"
    "jira_offsets (trace r) =
       map (\<lambda>j. j * maxResults) [0..<max (Suc 0) ((length db + (maxResults - 1)) div maxResults)]"
    by auto
  then show ?thesis
    by (simp add: fetch_from_start maxResults_def)
qed

theorem fetch_pages_of_static_source_witness:
  "\<exists>tr. getIssuesUpdatedLast24Hours (static_source (replicate 120 (bare_issue ''OPS-1''))) () =
          Some (replicate 120 (bare_issue ''OPS-1''), tr) \<and>
        jira_offsets tr = [0, 50, 100]"
  using fetch_pages_of_static_source
    [of "static_source (replicate 120 (bare_issue ''OPS-1''))" "replicate 120 (bare_issue ''OPS-1'')" "()"]
  by (simp add: static_source_def maxResults_def upt_rec)

text \<open>
  C1 as stated fails for \<open>T = 0\<close>: the formula gives no request, the fetch sends one.
\<close>

theorem fetch_empty_result_counterexample:
  "getIssuesUpdatedLast24Hours (static_source []) () =
     Some ([], [JiraPost 0, LogRetrieved 0 0, LogFinalTotal 0]) \<and>
   length (jira_offsets [JiraPost 0, LogRetrieved 0 0, LogFinalTotal 0]) = 1 \<and>
   (length ([] :: JiraIssue list) + (maxResults - 1)) div maxResults = 0"
proof -
  let ?st0 = "\<lparr> allIssues = [], startAt = 0, total_reported = 0, trace = [], source_state = () \<rparr>"
  have "makeRequest (static_source []) 0 0 () = (Inr ([], 0), [JiraPost 0], ())"
    by (rule makeRequest_page) (simp add: static_source_def)
  with fetch_loop_page[of "static_source []" ?st0 "[]" 0 "[JiraPost 0]" "()"] show ?thesis
    by (simp add: fetch_from_start merged_def maxResults_def)
qed


subsection \<open>C3: an error that is not a rate limit\<close>

text \<open>
  C3, as amended. At any point of the fetch loop, whatever has been accumulated: when the
  page request fails with an error that is not a 429 response, the request is not
  repeated, the loop exits at once and the fetch returns, without raising, exactly the
  issues accumulated so far. The error goes to the console and is no part of the returned
  value: the function returns the array of issues alone.
\<close>

theorem fetch_stops_on_other_error:
  "src (source_state st) (startAt st) = (Failure e, s') \<Longrightarrow>
   (\<forall>h. e \<noteq> AxiosResponseError 429 h) \<Longrightarrow>
   fetch_loop src st =
     Some (st \<lparr> trace := trace st @ [JiraPost (startAt st), ErrFetching e], source_state := s' \<rparr>) \<and>
   (\<forall>s0. src s0 0 = (Failure e, s') \<longrightarrow>
      getIssuesUpdatedLast24Hours src s0 =
        Some ([], [JiraPost 0, ErrFetching e, LogFinalTotal 0]))"
proof -
  assume src: "src (source_state st) (startAt st) = (Failure e, s')"
    and other: "\<forall>h. e \<noteq> AxiosResponseError 429 h"
  have "makeRequest src (startAt st) 0 (source_state st) = (Inl e, [JiraPost (startAt st)], s')"
    by (rule makeRequest_not_429[of src "source_state st" "startAt st" e s', OF src other])
  from fetch_loop_thrown[OF this]
  have loop: "fetch_loop src st =
      Some (st \<lparr> trace := trace st @ [JiraPost (startAt st), ErrFetching e], source_state := s' \<rparr>)"
    by simp
  have "getIssuesUpdatedLast24Hours src s0 = Some ([], [JiraPost 0, ErrFetching e, LogFinalTotal 0])"
    if first: "src s0 0 = (Failure e, s')" for s0
  proof -
    let ?st0 = "\<lparr> allIssues = [], startAt = 0, total_reported = 0, trace = [], source_state = s0 \<rparr>"
    have "makeRequest src 0 0 s0 = (Inl e, [JiraPost 0], s')"
      by (rule makeRequest_not_429[of src s0 0 e s', OF first other])
    with fetch_loop_thrown[of src ?st0 e "[JiraPost 0]" s'] show ?thesis
      by (simp add: fetch_from_start)
  qed
  with loop show ?thesis by blast
qed

theorem fetch_stops_on_other_error_witness:
  "fetch_loop broken_source
     \<lparr> allIssues = [bare_issue ''OPS-1''], startAt = 50, total_reported = 2,
       trace = [JiraPost 0, LogRetrieved 1 2], source_state = () \<rparr> =
   Some \<lparr> allIssues = [bare_issue ''OPS-1''], startAt = 50, total_reported = 2,
          trace = [JiraPost 0, LogRetrieved 1 2, JiraPost 50, ErrFetching AxiosNoResponse],
          source_state = () \<rparr>"
  using fetch_stops_on_other_error
    [of broken_source
        "\<lparr> allIssues = [bare_issue ''OPS-1''], startAt = 50, total_reported = 2,
           trace = [JiraPost 0, LogRetrieved 1 2], source_state = () \<rparr>"
        AxiosNoResponse "()"]
  by (simp add: broken_source_def)

text \<open>
  C3 as stated fails: no error signal is returned. A fetch cut short by a network failure
  and a complete fetch return the same value.
\<close>

theorem fetch_returns_no_error_signal_counterexample:
  "getIssuesUpdatedLast24Hours broken_source () =
     Some ([bare_issue ''OPS-1''],
           [JiraPost 0, LogRetrieved 1 2, JiraPost 50, ErrFetching AxiosNoResponse, LogFinalTotal 1]) \<and>
   getIssuesUpdatedLast24Hours (static_source [bare_issue ''OPS-1'']) () =
     Some ([bare_issue ''OPS-1''], [JiraPost 0, LogRetrieved 1 1, LogFinalTotal 1]) \<and>
   map_option fst (getIssuesUpdatedLast24Hours broken_source ()) =
   map_option fst (getIssuesUpdatedLast24Hours (static_source [bare_issue ''OPS-1'']) ())"
proof -
  let ?b = "bare_issue ''OPS-1''"
  let ?st0 = "\<lparr> allIssues = [], startAt = 0, total_reported = 0, trace = [], source_state = () \<rparr>"
  let ?st1 = "merged ?st0 [?b] 2 [JiraPost 0] ()"
  have first: "makeRequest broken_source 0 0 () = (Inr ([?b], 2), [JiraPost 0], ())"
    by (rule makeRequest_page) (simp add: broken_source_def)
  have second: "makeRequest broken_source 50 0 () = (Inl AxiosNoResponse, [JiraPost 50], ())"
    by (rule makeRequest_not_429) (simp_all add: broken_source_def)
  have "fetch_loop broken_source ?st0 = fetch_loop broken_source ?st1"
    using fetch_loop_page[of broken_source ?st0 "[?b]" 2 "[JiraPost 0]" "()"] first by simp
  also have "\<dots> = Some (?st1 \<lparr> trace := trace ?st1 @ [JiraPost 50] @ [ErrFetching AxiosNoResponse],
                                source_state := () \<rparr>)"
    using fetch_loop_thrown[of broken_source ?st1 AxiosNoResponse "[JiraPost 50]" "()"] second
    by (simp add: merged_def maxResults_def)
  finally have broken: "getIssuesUpdatedLast24Hours broken_source () =
     Some ([?b], [JiraPost 0, LogRetrieved 1 2, JiraPost 50, ErrFetching AxiosNoResponse, LogFinalTotal 1])"
    by (simp add: fetch_from_start merged_def)
  have "makeRequest (static_source [?b]) 0 0 () = (Inr ([?b], 1), [JiraPost 0], ())"
    by (rule makeRequest_page) (simp add: static_source_def maxResults_def)
  with fetch_loop_page[of "static_source [?b]" ?st0 "[?b]" 1 "[JiraPost 0]" "()"]
  have whole: "getIssuesUpdatedLast24Hours (static_source [?b]) () =
     Some ([?b], [JiraPost 0, LogRetrieved 1 1, LogFinalTotal 1])"
    by (simp add: fetch_from_start merged_def)
  from broken whole show ?thesis by simp
qed

subsection \<open>C10: when the loop ends\<close>

text \<open>
  C10. (1) A page that is merged moves the offset on by the page size 50, whatever the
  number of issues on it, and the loop goes on exactly while the issues accumulated are
  fewer than the total that this page reported. (2) So, at the end of a fetch that returns,
  the offset is 50 times the number of pages merged. (3) The loop ends for every source
  whose pages are never empty and whose reported totals stay below some bound. (4) A
  source that answers every request with an empty page and a positive total keeps the
  fetch from ever returning.
\<close>

theorem fetch_loop_ends_conditionally:
  "(src (source_state st) (startAt st) = (Page issues tot, s') \<longrightarrow>
      startAt (merged st issues tot [JiraPost (startAt st)] s') = startAt st + 50 \<and>
      fetch_loop src st =
        (if length (allIssues st @ issues) < tot
         then fetch_loop src (merged st issues tot [JiraPost (startAt st)] s')
         else Some (merged st issues tot [JiraPost (startAt st)] s'))) \<and>
   (\<forall>issues' tr. getIssuesUpdatedLast24Hours src s0 = Some (issues', tr) \<longrightarrow>
      (\<exists>r. fetch_loop src \<lparr> allIssues = [], startAt = 0, total_reported = 0, trace = [],
                            source_state = s0 \<rparr> = Some r \<and>
           startAt r = 50 * length (filter is_retrieved tr))) \<and>
   ((\<forall>s off page t s''. src s off = (Page page t, s'') \<longrightarrow> page \<noteq> [] \<and> t \<le> B) \<longrightarrow>
      (\<exists>r. fetch_loop src st = Some r) \<and> getIssuesUpdatedLast24Hours src s0 \<noteq> None) \<and>
   ((\<forall>s off. \<exists>t s''. src s off = (Page [] t, s'') \<and> 0 < t) \<longrightarrow>
      getIssuesUpdatedLast24Hours src s0 = None)"
proof (intro conjI impI allI)
  assume src: "src (source_state st) (startAt st) = (Page issues tot, s')"
  show "startAt (merged st issues tot [JiraPost (startAt st)] s') = startAt st + 50"
    by (simp add: merged_def maxResults_def)
  have "makeRequest src (startAt st) 0 (source_state st) =
          (Inr (issues, tot), [JiraPost (startAt st)], s')"
    by (rule makeRequest_page[of src "source_state st" "startAt st" issues tot s', OF src])
  then show "fetch_loop src st =
        (if length (allIssues st @ issues) < tot
         then fetch_loop src (merged st issues tot [JiraPost (startAt st)] s')
         else Some (merged st issues tot [JiraPost (startAt st)] s'))"
    by (rule fetch_loop_page)
next
  fix issues' tr
  let ?st0 = "\<lparr> allIssues = [], startAt = 0, total_reported = 0, trace = [], source_state = s0 \<rparr>"
  assume "getIssuesUpdatedLast24Hours src s0 = Some (issues', tr)"
  then obtain r where r: "fetch_loop src ?st0 = Some r"
    and tr: "tr = trace r @ [LogFinalTotal (length (allIssues r))]"
    by (auto simp: fetch_from_start)
  from fetch_loop_startAt_aux[OF r] tr
  have "startAt r = 50 * length (filter is_retrieved tr)"
    by (simp add: maxResults_def)
  with r show "\<exists>r. fetch_loop src ?st0 = Some r \<and> startAt r = 50 * length (filter is_retrieved tr)"
    by blast
next
  assume progress: "\<forall>s off page t s''. src s off = (Page page t, s'') \<longrightarrow> page \<noteq> [] \<and> t \<le> B"
  then have p: "\<And>s off issues tot s'. src s off = (Page issues tot, s') \<Longrightarrow> issues \<noteq> [] \<and> tot \<le> B"
    by blast
  show "\<exists>r. fetch_loop src st = Some r"
    by (rule fetch_loop_terminates[of src B st, OF p])
  from fetch_loop_terminates[of src B "\<lparr> allIssues = [], startAt = 0, total_reported = 0, trace = [], source_state = s0 \<rparr>", OF p]
  show "getIssuesUpdatedLast24Hours src s0 \<noteq> None"
    by (auto simp: fetch_from_start)
next
  assume "\<forall>s off. \<exists>t s''. src s off = (Page [] t, s'') \<and> 0 < t"
  from fetch_loop_empty_pages[OF this, of "\<lparr> allIssues = [], startAt = 0, total_reported = 0, trace = [], source_state = s0 \<rparr>"]
  show "getIssuesUpdatedLast24Hours src s0 = None"
    by (simp add: fetch_from_start)
qed

theorem fetch_loop_ends_conditionally_witness:
  "startAt (merged \<lparr> allIssues = [], startAt = 0, total_reported = 0, trace = [], source_state = () \<rparr>
              [bare_issue ''OPS-1''] 2 [JiraPost 0] ()) = 50 \<and>
   getIssuesUpdatedLast24Hours trickle_source () \<noteq> None \<and>
   getIssuesUpdatedLast24Hours empty_pages () = None"
  using
    fetch_loop_ends_conditionally
      [of trickle_source
          "\<lparr> allIssues = [], startAt = 0, total_reported = 0, trace = [], source_state = () \<rparr>"
          "[bare_issue ''OPS-1'']" 2 "()" "()" 2]
    fetch_loop_ends_conditionally
      [of empty_pages
          "\<lparr> allIssues = [], startAt = 0, total_reported = 0, trace = [], source_state = () \<rparr>"
          "[]" 7 "()" "()" 7]
  by (simp add: trickle_source_def empty_pages_def)

section \<open>The formatter: lines of a document\<close>

lemma split_lines_not_Nil [simp]: "split_lines s \<noteq> []"
  by (cases s) simp_all

lemma split_lines_append:
  "split_lines (a @ CHR 0x0A # b) = split_lines a @ split_lines b"
  by (induction a) simp_all

lemma split_lines_single:
  "CHR 0x0A \<notin> set l \<Longrightarrow> split_lines l = [l]"
  by (induction l) auto

lemma join_Cons:
  "ys \<noteq> [] \<Longrightarrow> join sep (x # ys) = x @ sep @ join sep ys"
  by (cases ys) simp_all

lemma join_append:
  "xs \<noteq> [] \<Longrightarrow> ys \<noteq> [] \<Longrightarrow> join sep (xs @ ys) = join sep xs @ sep @ join sep ys"
proof (induction xs)
  case Nil
  then show ?case by simp
next
  case (Cons x xs)
  show ?case
  proof (cases "xs = []")
    case True
    with Cons.prems show ?thesis by (simp add: join_Cons)
  next
    case False
    with Cons show ?thesis by (simp add: join_Cons)
  qed
qed

lemma split_lines_join:
  "xs \<noteq> [] \<Longrightarrow> split_lines (join ''\<newline>'' xs) = concat (map split_lines xs)"
proof (induction xs)
  case Nil
  then show ?case by simp
next
  case (Cons x xs)
  show ?case
  proof (cases "xs = []")
    case True
    then show ?thesis by simp
  next
    case False
    with Cons.IH show ?thesis by (simp add: join_Cons split_lines_append)
  qed
qed

lemma trim_core:
  assumes w: "\<forall>x\<in>set w. is_space x" and c: "\<not> is_space c" and d: "\<not> is_space d"
  shows "\<exists>q z. trim (w @ c # m @ d # r) = c # m @ d # q \<and> r = q @ z"
proof -
  have left: "dropWhile is_space (w @ c # m @ d # r) = c # m @ d # r"
    using w c by (simp add: dropWhile_append2)
  have "dropWhile is_space (rev r @ d # rev m @ [c]) = dropWhile is_space (rev r) @ d # rev m @ [c]"
    using d by (rule dropWhile_append3)
  then have "trim (w @ c # m @ d # r) = c # m @ d # rev (dropWhile is_space (rev r))"
    by (simp add: trim_def left)
  moreover have "r = rev (dropWhile is_space (rev r)) @ rev (takeWhile is_space (rev r))"
    by (metis rev_append rev_rev_ident takeWhile_dropWhile_id)
  ultimately show ?thesis by blast
qed


lemma join_snoc:
  "xs \<noteq> [] \<Longrightarrow> join sep (xs @ [y]) = join sep xs @ sep @ y"
  using join_append[of xs "[y]" sep] by simp

lemma join_ends:
  "\<exists>m. join sep (((c # a) # mid) @ [b @ [d]]) = c # m @ [d]"
proof -
  have "join sep (((c # a) # mid) @ [b @ [d]]) = join sep ((c # a) # mid) @ sep @ b @ [d]"
    by (rule join_snoc) simp
  also have "\<exists>m'. join sep ((c # a) # mid) = c # m'"
    by (cases mid) simp_all
  then obtain m' where "join sep ((c # a) # mid) = c # m'" ..
  finally have "join sep (((c # a) # mid) @ [b @ [d]]) = c # (m' @ sep @ b) @ [d]" by simp
  then show ?thesis ..
qed

lemma trim_join_lines:
  assumes c: "\<not> is_space c" and d: "\<not> is_space d" and tail: "tail \<noteq> []"
  shows "\<exists>q. trim (join ''\<newline>'' ([] # ((c # a) # mid) @ [b @ [d]] @ tail)) =
               join ''\<newline>'' (((c # a) # mid) @ [b @ [d]]) @ q \<and>
             (q = [] \<or> (\<exists>q'. q = CHR 0x0A # q'))"
proof -
  let ?H = "((c # a) # mid) @ [b @ [d]]"
  obtain m where m: "join ''\<newline>'' ((c # a) # mid @ [b @ [d]]) = c # m @ [d]"
    using join_ends[of "''\<newline>''" c a mid b d] by auto
  have "join ''\<newline>'' ([] # ?H @ tail) = ''\<newline>'' @ join ''\<newline>'' (?H @ tail)"
    by (simp add: join_Cons)
  also have "join ''\<newline>'' (?H @ tail) = join ''\<newline>'' ?H @ ''\<newline>'' @ join ''\<newline>'' tail"
    using tail by (intro join_append) simp_all
  finally have raw: "join ''\<newline>'' ([] # ?H @ tail) =
      ''\<newline>'' @ c # m @ d # (CHR 0x0A # join ''\<newline>'' tail)"
    by (simp add: m)
  have nl: "\<forall>x\<in>set ''\<newline>''. is_space x" by (simp add: is_space_def)
  from trim_core[OF nl c d, of m "CHR 0x0A # join ''\<newline>'' tail"]
  obtain q z where q: "trim (''\<newline>'' @ c # m @ d # CHR 0x0A # join ''\<newline>'' tail) = c # m @ d # q"
    and z: "CHR 0x0A # join ''\<newline>'' tail = q @ z"
    by blast
  from z have "q = [] \<or> (\<exists>q'. q = CHR 0x0A # q')"
    by (cases q) simp_all
  moreover from q raw m have "trim (join ''\<newline>'' ([] # ?H @ tail)) = join ''\<newline>'' ?H @ q"
    by simp
  ultimately show ?thesis by auto
qed

lemma template_shape:
  "\<exists>a mid b. template_lines issue =
       [] # ((CHR ''I'' # a) # mid) @ [b @ [CHR '':'']] @ [formatComments (comment (issue_fields issue)), ''  ''] \<and>
     fixed_lines issue = ((CHR ''I'' # a) # mid) @ [b @ [CHR '':'']]"
  unfolding fixed_lines_def template_lines_def Let_def
  apply (rule exI[of _ "''ssue Key: '' @ key issue"])
  apply (rule exI[of _ "butlast (tl (butlast (butlast (tl (template_lines issue)))))"])
  apply (rule exI[of _ "''Comments''"])
  apply (simp add: template_lines_def Let_def)
  done

lemma content_lines:
  "\<exists>rest. split_lines (content issue) = concat (map split_lines (fixed_lines issue)) @ rest"
proof -
  from template_shape[of issue] obtain a mid b where
    t: "template_lines issue =
       [] # ((CHR ''I'' # a) # mid) @ [b @ [CHR '':'']] @ [formatComments (comment (issue_fields issue)), ''  '']"
    and f: "fixed_lines issue = ((CHR ''I'' # a) # mid) @ [b @ [CHR '':'']]"
    by blast
  have "\<not> is_space CHR ''I''" "\<not> is_space CHR '':''" by (simp_all add: is_space_def)
  from trim_join_lines[OF this, of "[formatComments (comment (issue_fields issue)), ''  '']" a mid b]
  obtain q where q: "content issue = join ''\<newline>'' (fixed_lines issue) @ q"
    and q': "q = [] \<or> (\<exists>q'. q = CHR 0x0A # q')"
    unfolding content_def t f by auto
  have ne: "fixed_lines issue \<noteq> []" by (simp add: f)
  from q' show ?thesis
  proof
    assume "q = []"
    with q ne have "split_lines (content issue) = concat (map split_lines (fixed_lines issue)) @ []"
      by (simp add: split_lines_join)
    then show ?thesis ..
  next
    assume "\<exists>q'. q = CHR 0x0A # q'"
    then obtain q' where "q = CHR 0x0A # q'" ..
    with q ne have "split_lines (content issue) = concat (map split_lines (fixed_lines issue)) @ split_lines q'"
      by (simp add: split_lines_join split_lines_append)
    then show ?thesis ..
  qed
qed

lemma fixed_line_in_content:
  assumes "l \<in> set (fixed_lines issue)" "CHR 0x0A \<notin> set l"
  shows "l \<in> set (split_lines (content issue))"
proof -
  from content_lines[of issue] obtain rest where
    "split_lines (content issue) = concat (map split_lines (fixed_lines issue)) @ rest" ..
  moreover from assms have "l \<in> set (concat (map split_lines (fixed_lines issue)))"
    by (auto simp: split_lines_single intro!: bexI[of _ l])
  ultimately show ?thesis by simp
qed

lemma subseq_split_lines:
  "subseq ys ls \<Longrightarrow> \<forall>l\<in>set ys. CHR 0x0A \<notin> set l \<Longrightarrow> subseq ys (concat (map split_lines ls))"
proof (induction rule: list_emb.induct)
  case (list_emb_Nil ls)
  show ?case by simp
next
  case (list_emb_Cons ys ls l)
  then have "subseq ys (concat (map split_lines ls))" by simp
  then have "subseq ys (split_lines l @ concat (map split_lines ls))"
    by (rule list_emb_append2)
  then show ?case by simp
next
  case (list_emb_Cons2 y l ys ls)
  then have "subseq ys (concat (map split_lines ls))" by simp
  moreover from list_emb_Cons2 have "split_lines l = [l]" by (simp add: split_lines_single)
  ultimately show ?case using list_emb_Cons2(1) by simp
qed

lemma fixed_lines_eq:
  "fixed_lines issue =
     (let f = issue_fields issue in
      [ ''Issue Key: '' @ key issue,
        ''ID: '' @ issue_id issue,
        ''URL: '' @ self issue,
        ''Summary: '' @ summary f,
        ''Description:'',
        formatDescription (description f),
        [],
        ''Issue Type: '' @ name (issuetype f),
        ''Status: '' @ name (status f),
        ''Priority: '' @ name (priority f),
        ''Assignee: '' @ (case assignee f of Some u \<Rightarrow> formatUser u | None \<Rightarrow> ''Unassigned''),
        ''Reporter: '' @ formatUser (reporter f),
        ''Project: '' @ project_name (project f) @ '' ('' @ project_key (project f) @ '')'',
        ''Created: '' @ created f,
        ''Updated: '' @ updated f,
        ''Resolution: '' @ (case resolution f of Some r \<Rightarrow> name r | None \<Rightarrow> ''Unresolved''),
        ''Resolution Date: '' @ string_or (resolutiondate f) ''N/A'',
        ''Labels: '' @ join '', '' (labels f),
        ''Components: '' @ join '', '' (map name (components f)),
        ''Sprint: '' @ (case sprint f of Some sp \<Rightarrow> name sp | None \<Rightarrow> ''N/A''),
        ''Epic: '' @ (case epic f of Some ep \<Rightarrow> name ep | None \<Rightarrow> ''N/A''),
        ''Time Tracking:'',
        ''  Original Estimate: '' @ number_or (timeoriginalestimate f) ''N/A'',
        ''  Remaining Estimate: '' @ number_or (timeestimate f) ''N/A'',
        ''  Time Spent: '' @ number_or (timespent f) ''N/A'',
        ''Votes: '' @ number_to_string (votes f),
        ''Watches: '' @ number_to_string (watches f),
        ''Fix Versions: '' @ join '', '' (map name (fixVersions f)),
        ''Affected Versions: '' @ join '', '' (map name (versions f)),
        ''Subtasks: '' @ join '', '' (map formatRef (subtasks f)),
        ''Issue Links: '' @ join '', '' (filter (\<lambda>x. x \<noteq> []) (map formatLink (issuelinks f))),
        ''Attachments: '' @ join '', '' (map filename (attachment f)),
        [],
        ''Comments:'' ])"
  by (simp add: fixed_lines_def template_lines_def Let_def)

subsection \<open>C6: placeholders for absent fields\<close>

text \<open>
  C6. The formatter has no failing case on a record of the declared type: every member it
  reads without a guard is declared present. In the document of every issue, a null
  assignee gives the line \<^verbatim>\<open>Assignee: Unassigned\<close>, a null resolution the line
  \<^verbatim>\<open>Resolution: Unresolved\<close>, a null resolution date, sprint or epic the placeholder
  \<^verbatim>\<open>N/A\<close> on its line, and an empty collection its label followed by the empty string:
  no line is left out. When all of them are absent, these lines stand in the order of the
  template.
\<close>

theorem absent_fields_render_placeholders:
  "(assignee (issue_fields issue) = None \<longrightarrow>
      ''Assignee: Unassigned'' \<in> set (split_lines (content issue))) \<and>
   (resolution (issue_fields issue) = None \<longrightarrow>
      ''Resolution: Unresolved'' \<in> set (split_lines (content issue))) \<and>
   (resolutiondate (issue_fields issue) = None \<longrightarrow>
      ''Resolution Date: N/A'' \<in> set (split_lines (content issue))) \<and>
   (sprint (issue_fields issue) = None \<longrightarrow>
      ''Sprint: N/A'' \<in> set (split_lines (content issue))) \<and>
   (epic (issue_fields issue) = None \<longrightarrow>
      ''Epic: N/A'' \<in> set (split_lines (content issue))) \<and>
   (labels (issue_fields issue) = [] \<longrightarrow>
      ''Labels: '' \<in> set (split_lines (content issue))) \<and>
   (components (issue_fields issue) = [] \<longrightarrow>
      ''Components: '' \<in> set (split_lines (content issue))) \<and>
   (fixVersions (issue_fields issue) = [] \<longrightarrow>
      ''Fix Versions: '' \<in> set (split_lines (content issue))) \<and>
   (versions (issue_fields issue) = [] \<longrightarrow>
      ''Affected Versions: '' \<in> set (split_lines (content issue))) \<and>
   (subtasks (issue_fields issue) = [] \<longrightarrow>
      ''Subtasks: '' \<in> set (split_lines (content issue))) \<and>
   (issuelinks (issue_fields issue) = [] \<longrightarrow>
      ''Issue Links: '' \<in> set (split_lines (content issue))) \<and>
   (attachment (issue_fields issue) = [] \<longrightarrow>
      ''Attachments: '' \<in> set (split_lines (content issue))) \<and>
   ''Comments:'' \<in> set (split_lines (content issue)) \<and>
   (assignee (issue_fields issue) = None \<and> resolution (issue_fields issue) = None \<and>
    resolutiondate (issue_fields issue) = None \<and> labels (issue_fields issue) = [] \<and>
    components (issue_fields issue) = [] \<and> sprint (issue_fields issue) = None \<and>
    epic (issue_fields issue) = None \<and> fixVersions (issue_fields issue) = [] \<and>
    versions (issue_fields issue) = [] \<and> subtasks (issue_fields issue) = [] \<and>
    issuelinks (issue_fields issue) = [] \<and> attachment (issue_fields issue) = [] \<longrightarrow>
      subseq
        [''Assignee: Unassigned'', ''Resolution: Unresolved'', ''Resolution Date: N/A'',
         ''Labels: '', ''Components: '', ''Sprint: N/A'', ''Epic: N/A'', ''Fix Versions: '',
         ''Affected Versions: '', ''Subtasks: '', ''Issue Links: '', ''Attachments: '',
         ''Comments:'']
        (split_lines (content issue)))"
proof (intro conjI impI)
  assume "assignee (issue_fields issue) = None"
  then show "''Assignee: Unassigned'' \<in> set (split_lines (content issue))"
    by (intro fixed_line_in_content) (simp_all add: fixed_lines_eq Let_def)
next
  assume "resolution (issue_fields issue) = None"
  then show "''Resolution: Unresolved'' \<in> set (split_lines (content issue))"
    by (intro fixed_line_in_content) (simp_all add: fixed_lines_eq Let_def)
next
  assume "resolutiondate (issue_fields issue) = None"
  then show "''Resolution Date: N/A'' \<in> set (split_lines (content issue))"
    by (intro fixed_line_in_content) (simp_all add: fixed_lines_eq Let_def string_or_def)
next
  assume "sprint (issue_fields issue) = None"
  then show "''Sprint: N/A'' \<in> set (split_lines (content issue))"
    by (intro fixed_line_in_content) (simp_all add: fixed_lines_eq Let_def)
next
  assume "epic (issue_fields issue) = None"
  then show "''Epic: N/A'' \<in> set (split_lines (content issue))"
    by (intro fixed_line_in_content) (simp_all add: fixed_lines_eq Let_def)
next
  assume "labels (issue_fields issue) = []"
  then show "''Labels: '' \<in> set (split_lines (content issue))"
    by (intro fixed_line_in_content) (simp_all add: fixed_lines_eq Let_def)
next
  assume "components (issue_fields issue) = []"
  then show "''Components: '' \<in> set (split_lines (content issue))"
    by (intro fixed_line_in_content) (simp_all add: fixed_lines_eq Let_def)
next
  assume "fixVersions (issue_fields issue) = []"
  then show "''Fix Versions: '' \<in> set (split_lines (content issue))"
    by (intro fixed_line_in_content) (simp_all add: fixed_lines_eq Let_def)
next
  assume "versions (issue_fields issue) = []"
  then show "''Affected Versions: '' \<in> set (split_lines (content issue))"
    by (intro fixed_line_in_content) (simp_all add: fixed_lines_eq Let_def)
next
  assume "subtasks (issue_fields issue) = []"
  then show "''Subtasks: '' \<in> set (split_lines (content issue))"
    by (intro fixed_line_in_content) (simp_all add: fixed_lines_eq Let_def)
next
  assume "issuelinks (issue_fields issue) = []"
  then show "''Issue Links: '' \<in> set (split_lines (content issue))"
    by (intro fixed_line_in_content) (simp_all add: fixed_lines_eq Let_def)
next
  assume "attachment (issue_fields issue) = []"
  then show "''Attachments: '' \<in> set (split_lines (content issue))"
    by (intro fixed_line_in_content) (simp_all add: fixed_lines_eq Let_def)
next
  show "''Comments:'' \<in> set (split_lines (content issue))"
    by (intro fixed_line_in_content) (simp_all add: fixed_lines_eq Let_def)
next
  assume absent: "assignee (issue_fields issue) = None \<and> resolution (issue_fields issue) = None \<and>
    resolutiondate (issue_fields issue) = None \<and> labels (issue_fields issue) = [] \<and>
    components (issue_fields issue) = [] \<and> sprint (issue_fields issue) = None \<and>
    epic (issue_fields issue) = None \<and> fixVersions (issue_fields issue) = [] \<and>
    versions (issue_fields issue) = [] \<and> subtasks (issue_fields issue) = [] \<and>
    issuelinks (issue_fields issue) = [] \<and> attachment (issue_fields issue) = []"
  let ?ph = "[''Assignee: Unassigned'', ''Resolution: Unresolved'', ''Resolution Date: N/A'',
         ''Labels: '', ''Components: '', ''Sprint: N/A'', ''Epic: N/A'', ''Fix Versions: '',
         ''Affected Versions: '', ''Subtasks: '', ''Issue Links: '', ''Attachments: '',
         ''Comments:'']"
  have "subseq ?ph (fixed_lines issue)"
    using absent by (simp add: fixed_lines_eq Let_def string_or_def)
  then have "subseq ?ph (concat (map split_lines (fixed_lines issue)))"
    by (rule subseq_split_lines) simp
  moreover obtain rest where
    "split_lines (content issue) = concat (map split_lines (fixed_lines issue)) @ rest"
    using content_lines[of issue] ..
  ultimately show "subseq ?ph (split_lines (content issue))"
    by (simp add: list_emb_prefix)
qed


theorem absent_fields_render_placeholders_witness:
  "''Assignee: Unassigned'' \<in> set (split_lines (content (bare_issue ''OPS-1''))) \<and>
   ''Resolution: Unresolved'' \<in> set (split_lines (content (bare_issue ''OPS-1''))) \<and>
   ''Resolution Date: N/A'' \<in> set (split_lines (content (bare_issue ''OPS-1''))) \<and>
   ''Sprint: N/A'' \<in> set (split_lines (content (bare_issue ''OPS-1''))) \<and>
   ''Epic: N/A'' \<in> set (split_lines (content (bare_issue ''OPS-1''))) \<and>
   ''Labels: '' \<in> set (split_lines (content (bare_issue ''OPS-1''))) \<and>
   ''Components: '' \<in> set (split_lines (content (bare_issue ''OPS-1''))) \<and>
   ''Fix Versions: '' \<in> set (split_lines (content (bare_issue ''OPS-1''))) \<and>
   ''Affected Versions: '' \<in> set (split_lines (content (bare_issue ''OPS-1''))) \<and>
   ''Subtasks: '' \<in> set (split_lines (content (bare_issue ''OPS-1''))) \<and>
   ''Issue Links: '' \<in> set (split_lines (content (bare_issue ''OPS-1''))) \<and>
   ''Attachments: '' \<in> set (split_lines (content (bare_issue ''OPS-1''))) \<and>
   ''Comments:'' \<in> set (split_lines (content (bare_issue ''OPS-1''))) \<and>
   subseq
     [''Assignee: Unassigned'', ''Resolution: Unresolved'', ''Resolution Date: N/A'',
      ''Labels: '', ''Components: '', ''Sprint: N/A'', ''Epic: N/A'', ''Fix Versions: '',
      ''Affected Versions: '', ''Subtasks: '', ''Issue Links: '', ''Attachments: '',
      ''Comments:'']
     (split_lines (content (bare_issue ''OPS-1'')))"
proof -
  have absent: "assignee (issue_fields (bare_issue ''OPS-1'')) = None"
    "resolution (issue_fields (bare_issue ''OPS-1'')) = None"
    "resolutiondate (issue_fields (bare_issue ''OPS-1'')) = None"
    "labels (issue_fields (bare_issue ''OPS-1'')) = []"
    "components (issue_fields (bare_issue ''OPS-1'')) = []"
    "sprint (issue_fields (bare_issue ''OPS-1'')) = None"
    "epic (issue_fields (bare_issue ''OPS-1'')) = None"
    "fixVersions (issue_fields (bare_issue ''OPS-1'')) = []"
    "versions (issue_fields (bare_issue ''OPS-1'')) = []"
    "subtasks (issue_fields (bare_issue ''OPS-1'')) = []"
    "issuelinks (issue_fields (bare_issue ''OPS-1'')) = []"
    "attachment (issue_fields (bare_issue ''OPS-1'')) = []"
    by (simp_all add: bare_issue_def)
  from absent_fields_render_placeholders[of "bare_issue ''OPS-1''"] absent
  show ?thesis by blast
qed

subsection \<open>C9: a time of zero\<close>

text \<open>
  C9. When the original estimate, the remaining estimate or the time spent of an issue is
  the number 0, its line shows \<^verbatim>\<open>N/A\<close>, and the whole document is the document of the
  same issue with that member null.
\<close>

theorem zero_time_renders_as_absent:
  "(timeoriginalestimate (issue_fields issue) = Some 0 \<longrightarrow>
      ''  Original Estimate: N/A'' \<in> set (split_lines (content issue)) \<and>
      content issue =
        content (issue \<lparr> issue_fields := (issue_fields issue) \<lparr> timeoriginalestimate := None \<rparr> \<rparr>)) \<and>
   (timeestimate (issue_fields issue) = Some 0 \<longrightarrow>
      ''  Remaining Estimate: N/A'' \<in> set (split_lines (content issue)) \<and>
      content issue =
        content (issue \<lparr> issue_fields := (issue_fields issue) \<lparr> timeestimate := None \<rparr> \<rparr>)) \<and>
   (timespent (issue_fields issue) = Some 0 \<longrightarrow>
      ''  Time Spent: N/A'' \<in> set (split_lines (content issue)) \<and>
      content issue =
        content (issue \<lparr> issue_fields := (issue_fields issue) \<lparr> timespent := None \<rparr> \<rparr>))"
proof (intro conjI impI)
  assume z: "timeoriginalestimate (issue_fields issue) = Some 0"
  then show "''  Original Estimate: N/A'' \<in> set (split_lines (content issue))"
    by (intro fixed_line_in_content) (simp_all add: fixed_lines_eq Let_def number_or_def)
  from z show "content issue =
        content (issue \<lparr> issue_fields := (issue_fields issue) \<lparr> timeoriginalestimate := None \<rparr> \<rparr>)"
    by (simp add: content_def template_lines_def Let_def number_or_def)
next
  assume z: "timeestimate (issue_fields issue) = Some 0"
  then show "''  Remaining Estimate: N/A'' \<in> set (split_lines (content issue))"
    by (intro fixed_line_in_content) (simp_all add: fixed_lines_eq Let_def number_or_def)
  from z show "content issue =
        content (issue \<lparr> issue_fields := (issue_fields issue) \<lparr> timeestimate := None \<rparr> \<rparr>)"
    by (simp add: content_def template_lines_def Let_def number_or_def)
next
  assume z: "timespent (issue_fields issue) = Some 0"
  then show "''  Time Spent: N/A'' \<in> set (split_lines (content issue))"
    by (intro fixed_line_in_content) (simp_all add: fixed_lines_eq Let_def number_or_def)
  from z show "content issue =
        content (issue \<lparr> issue_fields := (issue_fields issue) \<lparr> timespent := None \<rparr> \<rparr>)"
    by (simp add: content_def template_lines_def Let_def number_or_def)
qed

theorem zero_time_renders_as_absent_witness:
  "''  Original Estimate: N/A'' \<in> set (split_lines (content zero_time_issue)) \<and>
   ''  Remaining Estimate: N/A'' \<in> set (split_lines (content zero_time_issue)) \<and>
   ''  Time Spent: N/A'' \<in> set (split_lines (content zero_time_issue)) \<and>
   content zero_time_issue =
     content (zero_time_issue \<lparr> issue_fields := (issue_fields zero_time_issue) \<lparr> timespent := None \<rparr> \<rparr>)"
proof -
  have zero: "timeoriginalestimate (issue_fields zero_time_issue) = Some 0"
    "timeestimate (issue_fields zero_time_issue) = Some 0"
    "timespent (issue_fields zero_time_issue) = Some 0"
    by (simp_all add: zero_time_issue_def)
  from zero_time_renders_as_absent[of zero_time_issue] zero
  show ?thesis by blast
qed

section \<open>The sink: what every run keeps true\<close>

lemma deliver_Nil: "deliver issues dest [] = scheduled issues"
  by (simp add: deliver_def)

lemma deliver_snoc: "deliver issues dest (sched @ [a]) = step issues dest (deliver issues dest sched) a"
  by (simp add: deliver_def)

lemma deliver_append:
  "deliver issues dest (sched @ rest) = foldl (step issues dest) (deliver issues dest sched) rest"
  by (simp add: deliver_def)

lemma deliver_induct [consumes 0, case_names init step]:
  assumes "P (scheduled issues)" and "\<And>st a. P st \<Longrightarrow> P (step issues dest st a)"
  shows "P (deliver issues dest sched)"
  by (induction sched rule: rev_induct) (simp_all add: deliver_Nil deliver_snoc assms)

lemma first_queued_Some:
  "first_queued ts = Some i \<Longrightarrow> i < length ts \<and> ts ! i = Queued"
  by (induction ts arbitrary: i) (auto split: if_splits)

lemma first_queued_None:
  "first_queued ts = None \<longleftrightarrow> Queued \<notin> set ts"
  by (induction ts) auto

text \<open>The three kinds of step, as rules.\<close>

lemma step_cases [consumes 0, case_names idle launch resolve reject resume_ok resume_err]:
  assumes "step issues dest st a = st \<Longrightarrow> R"
    and "\<And>i. a = Launch \<Longrightarrow> i < length (tasks st) \<Longrightarrow> tasks st ! i = Queued \<Longrightarrow>
           step issues dest st a =
             st \<lparr> tasks := (tasks st)[i := Running],
                  log := log st @ [DustPost (documentId (issues ! i)) (content (issues ! i))] \<rparr> \<Longrightarrow> R"
    and "\<And>i. a = Settle i \<Longrightarrow> i < length (tasks st) \<Longrightarrow> tasks st ! i = Running \<Longrightarrow> dest i = None \<Longrightarrow>
           step issues dest st a =
             st \<lparr> tasks := (tasks st)[i := Resolved],
                  all_tasks :=
                    (if all_tasks st = Pending \<and> list_all (\<lambda>t. t = Resolved) ((tasks st)[i := Resolved])
                     then Fulfilled else all_tasks st),
                  log := log st @ [LogUpserted (key (issues ! i))] \<rparr> \<Longrightarrow> R"
    and "\<And>i err. a = Settle i \<Longrightarrow> i < length (tasks st) \<Longrightarrow> tasks st ! i = Running \<Longrightarrow> dest i = Some err \<Longrightarrow>
           step issues dest st a =
             st \<lparr> tasks := (tasks st)[i := Rejected err],
                  all_tasks := (if all_tasks st = Pending then RejectedWith err else all_tasks st),
                  log := log st @ [ErrUpserting (key (issues ! i)) err] \<rparr> \<Longrightarrow> R"
    and "a = Resume \<Longrightarrow> \<not> main_done st \<Longrightarrow> all_tasks st = Fulfilled \<Longrightarrow>
           step issues dest st a = st \<lparr> main_done := True, log := log st @ [LogAllProcessed] \<rparr> \<Longrightarrow> R"
    and "\<And>err. a = Resume \<Longrightarrow> \<not> main_done st \<Longrightarrow> all_tasks st = RejectedWith err \<Longrightarrow>
           step issues dest st a = st \<lparr> main_done := True, log := log st @ [ErrOccurred err] \<rparr> \<Longrightarrow> R"
  shows R
proof (cases a)
  case Launch
  show ?thesis
  proof (cases "first_queued (tasks st)")
    case None
    with Launch assms(1) show ?thesis by simp
  next
    case (Some i)
    show ?thesis
    proof (cases "running (tasks st) < maxConcurrent")
      case True
      with Launch Some first_queued_Some[OF Some] assms(2)[of i] show ?thesis by simp
    next
      case False
      with Launch Some assms(1) show ?thesis by simp
    qed
  qed
next
  case (Settle i)
  show ?thesis
  proof (cases "i < length (tasks st) \<and> tasks st ! i = Running")
    case False
    with Settle assms(1) show ?thesis by auto
  next
    case True
    show ?thesis
    proof (cases "dest i")
      case None
      with Settle True assms(3)[of i] show ?thesis by simp
    next
      case (Some err)
      with Settle True assms(4)[of i err] show ?thesis by simp
    qed
  qed
next
  case Resume
  show ?thesis
  proof (cases "main_done st")
    case True
    with Resume assms(1) show ?thesis by simp
  next
    case False
    show ?thesis
    proof (cases "all_tasks st")
      case Pending
      with Resume False assms(1) show ?thesis by simp
    next
      case Fulfilled
      with Resume False assms(5) show ?thesis by simp
    next
      case (RejectedWith err)
      with Resume False assms(6)[of err] show ?thesis by simp
    qed
  qed
qed

declare step.simps [simp del]

lemma length_tasks_step [simp]: "length (tasks (step issues dest st a)) = length (tasks st)"
  by (cases rule: step_cases[of issues dest st a]) simp_all

lemma length_tasks_deliver [simp]: "length (tasks (deliver issues dest sched)) = length issues"
  by (induction rule: deliver_induct) (simp_all add: scheduled_def)

lemma logged_step:
  assumes "logged issues dest st i" "i < length (tasks st)"
  shows "logged issues dest (step issues dest st a) i"
proof (cases rule: step_cases[of issues dest st a])
  case idle
  with assms show ?thesis by simp
next
  case (launch j)
  with assms show ?thesis
    by (cases "i = j") (auto simp: logged_def split: task.splits)
next
  case (resolve j)
  with assms show ?thesis
    by (cases "i = j") (auto simp: logged_def split: task.splits)
next
  case (reject j err)
  with assms show ?thesis
    by (cases "i = j") (auto simp: logged_def split: task.splits)
next
  case resume_ok
  with assms show ?thesis by (auto simp: logged_def split: task.splits)
next
  case (resume_err err)
  with assms show ?thesis by (auto simp: logged_def split: task.splits)
qed

lemma logged_deliver:
  "i < length issues \<Longrightarrow> logged issues dest (deliver issues dest sched) i"
proof (induction sched rule: rev_induct)
  case Nil
  then show ?case by (simp add: deliver_Nil scheduled_def logged_def)
next
  case (snoc a sched)
  then show ?case by (simp add: deliver_snoc logged_step)
qed

lemma set_update_other:
  "i < length xs \<Longrightarrow> x \<in> set xs \<Longrightarrow> x \<noteq> xs ! i \<Longrightarrow> x \<in> set (xs[i := v])"
  by (metis in_set_conv_nth length_list_update nth_list_update_neq)

lemma set_update_cases:
  "x \<in> set (xs[i := v]) \<Longrightarrow> x = v \<or> x \<in> set xs"
  by (meson insert_iff set_update_subset_insert subsetD)

lemma no_rejected_update:
  "\<not> list_ex is_rejected xs \<Longrightarrow> \<not> is_rejected v \<Longrightarrow> \<not> list_ex is_rejected (xs[i := v])"
  by (auto simp: list_ex_iff dest!: set_update_cases)

lemma unresolved_update:
  "i < length xs \<Longrightarrow> v \<noteq> Resolved \<Longrightarrow> list_ex (\<lambda>t. t \<noteq> Resolved) (xs[i := v])"
  by (auto simp: list_ex_iff intro: set_update_memI)

lemma rejected_kept:
  "Rejected e \<in> set xs \<Longrightarrow> i < length xs \<Longrightarrow> xs ! i = Queued \<or> xs ! i = Running \<Longrightarrow>
   Rejected e \<in> set (xs[i := v])"
  by (rule set_update_other) auto

lemma not_all_resolved:
  "i < length xs \<Longrightarrow> xs ! i = Queued \<or> xs ! i = Running \<Longrightarrow> \<not> list_all (\<lambda>t. t = Resolved) xs"
  by (auto simp: list_all_length)

lemma promise_inv_step:
  assumes "promise_inv st"
  shows "promise_inv (step issues dest st a)"
proof (cases rule: step_cases[of issues dest st a])
  case idle
  with assms show ?thesis by simp
next
  case (launch j)
  show ?thesis
  proof (cases "all_tasks st")
    case Pending
    with assms launch show ?thesis
      by (simp add: promise_inv_def no_rejected_update unresolved_update)
  next
    case Fulfilled
    with assms not_all_resolved[of j "tasks st"] launch show ?thesis
      by (simp add: promise_inv_def)
  next
    case (RejectedWith e)
    with assms launch show ?thesis
      by (simp add: promise_inv_def rejected_kept)
  qed
next
  case (resolve j)
  show ?thesis
  proof (cases "all_tasks st")
    case Pending
    with assms resolve show ?thesis
      by (simp add: promise_inv_def no_rejected_update) (simp add: list_ex_iff list_all_iff)
  next
    case Fulfilled
    with assms not_all_resolved[of j "tasks st"] resolve show ?thesis
      by (simp add: promise_inv_def)
  next
    case (RejectedWith e)
    with assms resolve show ?thesis
      by (simp add: promise_inv_def rejected_kept)
  qed
next
  case (reject j err)
  show ?thesis
  proof (cases "all_tasks st")
    case Pending
    with assms reject show ?thesis
      by (simp add: promise_inv_def set_update_memI)
  next
    case Fulfilled
    with assms not_all_resolved[of j "tasks st"] reject show ?thesis
      by (simp add: promise_inv_def)
  next
    case (RejectedWith e)
    with assms reject show ?thesis
      by (simp add: promise_inv_def rejected_kept)
  qed
next
  case resume_ok
  with assms show ?thesis by (simp add: promise_inv_def)
next
  case (resume_err err)
  with assms show ?thesis by (simp add: promise_inv_def)
qed

lemma promise_inv_scheduled: "promise_inv (scheduled issues)"
  by (cases issues) (simp_all add: promise_inv_def scheduled_def list_ex_iff)

lemma promise_inv_deliver: "promise_inv (deliver issues dest sched)"
  by (induction rule: deliver_induct) (simp_all add: promise_inv_scheduled promise_inv_step)

lemma promise_inv_foldl:
  "promise_inv st \<Longrightarrow> promise_inv (foldl (step issues dest) st sched)"
  by (induction sched arbitrary: st) (simp_all add: promise_inv_step)



lemma count_update:
  "i < length xs \<Longrightarrow>
   length (filter P (xs[i := w])) + (if P (xs ! i) then 1 else 0) =
   length (filter P xs) + (if P w then 1 else 0)"
proof (induction xs arbitrary: i)
  case Nil
  then show ?case by simp
next
  case (Cons x xs)
  show ?case
  proof (cases i)
    case 0
    then show ?thesis by simp
  next
    case (Suc j)
    with Cons.prems have "j < length xs" by simp
    from Cons.IH[OF this] Suc show ?thesis by simp
  qed
qed

lemma counts_step:
  assumes "length (filter is_upserted (log st)) = length (filter (\<lambda>t. t = Resolved) (tasks st))"
  shows "length (filter is_upserted (log (step issues dest st a))) =
         length (filter (\<lambda>t. t = Resolved) (tasks (step issues dest st a)))"
proof (cases rule: step_cases[of issues dest st a])
  case idle
  with assms show ?thesis by simp
next
  case (launch j)
  with assms count_update[of j "tasks st" "\<lambda>t. t = Resolved" Running] show ?thesis by simp
next
  case (resolve j)
  with assms count_update[of j "tasks st" "\<lambda>t. t = Resolved" Resolved] show ?thesis by simp
next
  case (reject j err)
  with assms count_update[of j "tasks st" "\<lambda>t. t = Resolved" "Rejected err"] show ?thesis by simp
next
  case resume_ok
  with assms show ?thesis by simp
next
  case (resume_err err)
  with assms show ?thesis by simp
qed

lemma counts_deliver:
  "length (filter is_upserted (log (deliver issues dest sched))) =
   length (filter (\<lambda>t. t = Resolved) (tasks (deliver issues dest sched)))"
  by (induction rule: deliver_induct) (simp_all add: scheduled_def counts_step)



lemma nth_progress:
  assumes "map progress_of ts = map progress_of ts'" "i < length ts"
  shows "ts ! i = Running \<longleftrightarrow> ts' ! i = Running"
proof -
  from assms(1) have len: "length ts = length ts'" by (rule map_eq_imp_length_eq)
  from assms(1) have "map progress_of ts ! i = map progress_of ts' ! i" by simp
  with assms(2) len have "progress_of (ts ! i) = progress_of (ts' ! i)" by simp
  then show ?thesis by (cases "ts ! i"; cases "ts' ! i") simp_all
qed

lemma first_queued_progress:
  "map progress_of ts = map progress_of ts' \<Longrightarrow> first_queued ts = first_queued ts'"
proof (induction ts arbitrary: ts')
  case Nil
  then show ?case by simp
next
  case (Cons t ts)
  then obtain t' us where ts': "ts' = t' # us" by (cases ts') auto
  with Cons.prems have "progress_of t = progress_of t'" "map progress_of ts = map progress_of us"
    by simp_all
  with Cons.IH[of us] ts' show ?case
    by (cases t; cases t') simp_all
qed

lemma running_progress:
  "map progress_of ts = map progress_of ts' \<Longrightarrow> running ts = running ts'"
proof (induction ts arbitrary: ts')
  case Nil
  then show ?case by (simp add: running_def)
next
  case (Cons t ts)
  then obtain t' us where ts': "ts' = t' # us" by (cases ts') auto
  with Cons.prems have "progress_of t = progress_of t'" "map progress_of ts = map progress_of us"
    by simp_all
  with Cons.IH[of us] ts' show ?case
    by (cases t; cases t') (simp_all add: running_def)
qed

lemma step_Settle_idle:
  "\<not> (i < length (tasks st) \<and> tasks st ! i = Running) \<Longrightarrow> step issues dest st (Settle i) = st"
  by (subst step.simps) (simp only: if_False)

lemma step_Settle_tasks:
  "i < length (tasks st) \<Longrightarrow> tasks st ! i = Running \<Longrightarrow>
   tasks (step issues dest st (Settle i)) =
     (tasks st)[i := (case dest i of None \<Rightarrow> Resolved | Some err \<Rightarrow> Rejected err)]"
  by (simp add: step.simps split: option.splits)

lemma step_Resume_tasks: "tasks (step issues dest st Resume) = tasks st"
  by (simp add: step.simps split: promise.splits)

lemma progress_step:
  assumes same: "map progress_of (tasks st) = map progress_of (tasks st')"
  shows "map progress_of (tasks (step issues dest st a)) = map progress_of (tasks (step issues dest' st' a))"
proof (cases a)
  case Launch
  have fq: "first_queued (tasks st') = first_queued (tasks st)"
    and rn: "running (tasks st') = running (tasks st)"
    using same by (simp_all add: first_queued_progress[of "tasks st" "tasks st'"] running_progress[of "tasks st" "tasks st'"])
  show ?thesis
  proof (cases "first_queued (tasks st)")
    case None
    with fq Launch same show ?thesis by (simp add: step.simps)
  next
    case (Some i)
    with fq rn Launch same show ?thesis by (simp add: step.simps map_update)
  qed
next
  case (Settle i)
  from same have len: "length (tasks st') = length (tasks st)"
    by (rule map_eq_imp_length_eq[symmetric])
  show ?thesis
  proof (cases "i < length (tasks st) \<and> tasks st ! i = Running")
    case True
    with nth_progress[OF same, of i] len have r': "i < length (tasks st') \<and> tasks st' ! i = Running"
      by simp
    from True r' Settle same show ?thesis
      by (cases "dest i"; cases "dest' i") (simp_all add: step_Settle_tasks map_update)
  next
    case False
    with nth_progress[OF same, of i] len have False': "\<not> (i < length (tasks st') \<and> tasks st' ! i = Running)"
      by auto
    show ?thesis
      unfolding Settle step_Settle_idle[OF False] step_Settle_idle[OF False'] by (rule same)
  qed
next
  case Resume
  with same show ?thesis by (simp add: step_Resume_tasks)
qed


lemma count_leave:
  "i < length xs \<Longrightarrow> P (xs ! i) \<Longrightarrow> \<not> P w \<Longrightarrow>
   Suc (length (filter P (xs[i := w]))) = length (filter P xs)"
  using count_update[of i xs P w] by simp

lemma count_enter:
  "i < length xs \<Longrightarrow> \<not> P (xs ! i) \<Longrightarrow> P w \<Longrightarrow>
   length (filter P (xs[i := w])) = Suc (length (filter P xs))"
  using count_update[of i xs P w] by simp

lemma count_same:
  "i < length xs \<Longrightarrow> \<not> P (xs ! i) \<Longrightarrow> \<not> P w \<Longrightarrow>
   length (filter P (xs[i := w])) = length (filter P xs)"
  using count_update[of i xs P w] by simp

lemma step_Launch:
  "first_queued (tasks st) = Some i \<Longrightarrow> running (tasks st) < maxConcurrent \<Longrightarrow>
   step issues dest st Launch =
     st \<lparr> tasks := (tasks st)[i := Running],
          log := log st @ [DustPost (documentId (issues ! i)) (content (issues ! i))] \<rparr>"
  by (simp add: step.simps)

lemma step_Settle_main_done:
  "main_done (step issues dest st (Settle i)) = main_done st"
  by (simp add: step.simps split: option.splits)

lemma step_Resume:
  "\<not> main_done st \<Longrightarrow> all_tasks st \<noteq> Pending \<Longrightarrow> main_done (step issues dest st Resume)"
  by (simp add: step.simps split: promise.splits)

lemma some_step_works:
  assumes inv: "promise_inv st" and busy: "\<not> quiescent st"
  shows "\<exists>a. work_left (step issues dest st a) < work_left st"
proof (cases "Running \<in> set (tasks st)")
  case True
  then obtain i where i: "i < length (tasks st)" "tasks st ! i = Running"
    by (auto simp: in_set_conv_nth)
  let ?w = "case dest i of None \<Rightarrow> Resolved | Some err \<Rightarrow> Rejected err"
  have w: "?w \<noteq> Running" "?w \<noteq> Queued" by (simp_all split: option.splits)
  have "Suc (length (filter (\<lambda>t. t = Running) ((tasks st)[i := ?w]))) = length (filter (\<lambda>t. t = Running) (tasks st))"
    using i w by (intro count_leave) simp_all
  moreover have "length (filter (\<lambda>t. t = Queued) ((tasks st)[i := ?w])) = length (filter (\<lambda>t. t = Queued) (tasks st))"
    using i w by (intro count_same) simp_all
  ultimately have "work_left (step issues dest st (Settle i)) < work_left st"
    unfolding work_left_def step_Settle_tasks[OF i] step_Settle_main_done by linarith
  then show ?thesis ..
next
  case no_running: False
  show ?thesis
  proof (cases "first_queued (tasks st)")
    case (Some i)
    from no_running have idle: "running (tasks st) = 0"
      by (auto simp: running_def filter_empty_conv)
    then have room: "running (tasks st) < maxConcurrent"
      by (simp add: maxConcurrent_def DUST_RATE_LIMIT_def)
    from first_queued_Some[OF Some] have i: "i < length (tasks st)" "tasks st ! i = Queued" by simp_all
    have "length (filter (\<lambda>t. t = Running) ((tasks st)[i := Running])) = Suc (length (filter (\<lambda>t. t = Running) (tasks st)))"
      using i by (intro count_enter) simp_all
    moreover have "Suc (length (filter (\<lambda>t. t = Queued) ((tasks st)[i := Running]))) = length (filter (\<lambda>t. t = Queued) (tasks st))"
      using i by (intro count_leave) simp_all
    ultimately have "work_left (step issues dest st Launch) < work_left st"
      unfolding work_left_def step_Launch[OF Some room] by simp
    then show ?thesis ..
  next
    case None
    then have no_queued: "Queued \<notin> set (tasks st)" by (simp add: first_queued_None)
    with no_running have all_settled: "list_all settled (tasks st)"
      by (auto simp: list_all_iff settled_def)
    with busy have not_done: "\<not> main_done st" by (simp add: quiescent_def)
    have "all_tasks st \<noteq> Pending"
    proof
      assume p: "all_tasks st = Pending"
      with inv have "\<not> list_ex is_rejected (tasks st)" "list_ex (\<lambda>t. t \<noteq> Resolved) (tasks st)"
        by (simp_all add: promise_inv_def)
      then obtain t where t: "t \<in> set (tasks st)" "t \<noteq> Resolved" "\<not> is_rejected t"
        by (auto simp: list_ex_iff)
      with no_queued no_running show False by (cases t) auto
    qed
    from step_Resume[OF not_done this, of issues dest] not_done
    have "work_left (step issues dest st Resume) < work_left st"
      by (simp add: work_left_def step_Resume_tasks)
    then show ?thesis ..
  qed
qed

lemma run_to_quiescence:
  "promise_inv st \<Longrightarrow> \<exists>rest. quiescent (foldl (step issues dest) st rest)"
proof (induction "work_left st" arbitrary: st rule: less_induct)
  case less
  show ?case
  proof (cases "quiescent st")
    case True
    then have "quiescent (foldl (step issues dest) st [])" by simp
    then show ?thesis ..
  next
    case False
    from some_step_works[OF less.prems False, of issues dest]
    obtain a where a: "work_left (step issues dest st a) < work_left st" ..
    from less.hyps[OF a promise_inv_step[OF less.prems]]
    obtain rest where "quiescent (foldl (step issues dest) (step issues dest st a) rest)" ..
    then have "quiescent (foldl (step issues dest) st (a # rest))" by simp
    then show ?thesis ..
  qed
qed

lemma deliver_can_finish:
  "\<exists>rest. quiescent (deliver issues dest (sched @ rest))"
  using run_to_quiescence[of "deliver issues dest sched" issues dest, OF promise_inv_deliver]
  by (simp add: deliver_append)


lemma progress_deliver:
  "map progress_of (tasks (deliver issues dest sched)) = map progress_of (tasks (deliver issues dest' sched))"
proof (induction sched rule: rev_induct)
  case Nil
  show ?case by (simp add: deliver_Nil)
next
  case (snoc a sched)
  then show ?case by (simp add: deliver_snoc progress_step)
qed

lemma posts_step:
  assumes "\<forall>d c. DustPost d c \<in> set (log st) \<longrightarrow>
             (\<exists>i<length issues. d = documentId (issues ! i) \<and> c = content (issues ! i))"
    and "length (tasks st) = length issues"
  shows "\<forall>d c. DustPost d c \<in> set (log (step issues dest st a)) \<longrightarrow>
             (\<exists>i<length issues. d = documentId (issues ! i) \<and> c = content (issues ! i))"
proof (cases rule: step_cases[of issues dest st a])
  case idle
  with assms show ?thesis by simp
next
  case (launch j)
  with assms show ?thesis by auto
next
  case (resolve j)
  with assms show ?thesis by simp
next
  case (reject j err)
  with assms show ?thesis by simp
next
  case resume_ok
  with assms show ?thesis by simp
next
  case (resume_err err)
  with assms show ?thesis by simp
qed

lemma posts_deliver:
  "\<forall>d c. DustPost d c \<in> set (log (deliver issues dest sched)) \<longrightarrow>
     (\<exists>i<length issues. d = documentId (issues ! i) \<and> c = content (issues ! i))"
proof (induction sched rule: rev_induct)
  case Nil
  show ?case by (simp add: deliver_Nil scheduled_def)
next
  case (snoc a sched)
  then show ?case
    unfolding deliver_snoc by (rule posts_step) simp
qed

subsection \<open>C7: the document identifier\<close>

text \<open>
  C7. The identifier of the destination document is \<^verbatim>\<open>"issue-"\<close> followed by the key of the
  issue and depends on nothing else: two issues with the same key have the same
  identifier, and every request that a run sends to the destination carries the
  identifier and the document of one of the fetched issues.
\<close>

theorem document_id_from_key:
  "documentId issue = ''issue-'' @ key issue \<and>
   (key a = key b \<longrightarrow> documentId a = documentId b) \<and>
   (DustPost d c \<in> set (log (deliver issues dest sched)) \<longrightarrow>
      (\<exists>i<length issues. d = ''issue-'' @ key (issues ! i) \<and> c = content (issues ! i)))"
  using posts_deliver[of issues dest sched] by (auto simp: documentId_def)


lemma deliver_two_first_fails_all:
  "deliver [bare_issue ''OPS-1'', bare_issue ''OPS-2'']
     (\<lambda>i. if i = 0 then Some AxiosNoResponse else None)
     [Launch, Settle 0, Resume, Launch, Settle 1] =
   \<lparr> tasks = [Rejected AxiosNoResponse, Resolved],
     all_tasks = RejectedWith AxiosNoResponse,
     main_done = True,
     log = [DustPost (documentId (bare_issue ''OPS-1'')) (content (bare_issue ''OPS-1'')),
            ErrUpserting ''OPS-1'' AxiosNoResponse,
            ErrOccurred AxiosNoResponse,
            DustPost (documentId (bare_issue ''OPS-2'')) (content (bare_issue ''OPS-2'')),
            LogUpserted ''OPS-2''] \<rparr>"
  by (simp add: deliver_def scheduled_def step.simps running_def maxConcurrent_def DUST_RATE_LIMIT_def)

theorem document_id_from_key_witness:
  "documentId (bare_issue ''OPS-1'') = ''issue-OPS-1'' \<and>
   documentId (bare_issue ''OPS-2'') = documentId (zero_time_issue) \<and>
   (\<exists>i<length [bare_issue ''OPS-1'', bare_issue ''OPS-2''].
      documentId (bare_issue ''OPS-2'') = ''issue-'' @ key ([bare_issue ''OPS-1'', bare_issue ''OPS-2''] ! i) \<and>
      content (bare_issue ''OPS-2'') = content ([bare_issue ''OPS-1'', bare_issue ''OPS-2''] ! i))"
proof -
  note t = document_id_from_key
    [of "bare_issue ''OPS-2''" "bare_issue ''OPS-2''" zero_time_issue
        "documentId (bare_issue ''OPS-2'')" "content (bare_issue ''OPS-2'')"
        "[bare_issue ''OPS-1'', bare_issue ''OPS-2'']"
        "\<lambda>i. if i = 0 then Some AxiosNoResponse else None"
        "[Launch, Settle 0, Resume, Launch, Settle 1]"]
  have same: "key (bare_issue ''OPS-2'') = key zero_time_issue"
    by (simp add: zero_time_issue_def)
  have posted: "DustPost (documentId (bare_issue ''OPS-2'')) (content (bare_issue ''OPS-2''))
      \<in> set (log (deliver [bare_issue ''OPS-1'', bare_issue ''OPS-2'']
                 (\<lambda>i. if i = 0 then Some AxiosNoResponse else None)
                 [Launch, Settle 0, Resume, Launch, Settle 1]))"
    by (subst deliver_two_first_fails_all) simp
  from t same posted have "documentId (bare_issue ''OPS-2'') = documentId zero_time_issue"
    and "\<exists>i<length [bare_issue ''OPS-1'', bare_issue ''OPS-2''].
           documentId (bare_issue ''OPS-2'') = ''issue-'' @ key ([bare_issue ''OPS-1'', bare_issue ''OPS-2''] ! i) \<and>
           content (bare_issue ''OPS-2'') = content ([bare_issue ''OPS-1'', bare_issue ''OPS-2''] ! i)"
    by blast+
  moreover from document_id_from_key[of "bare_issue ''OPS-1''"]
  have "documentId (bare_issue ''OPS-1'') = ''issue-OPS-1''" by simp
  ultimately show ?thesis by blast
qed


lemma rejected_task_logged:
  assumes "i < length issues" "tasks (deliver issues dest sched) ! i = Rejected e"
  shows "dest i = Some e \<and> ErrUpserting (key (issues ! i)) e \<in> set (log (deliver issues dest sched))"
  using logged_deliver[OF assms(1), of dest sched] assms(2) by (simp add: logged_def)

lemma resolved_task_logged:
  assumes "i < length issues" "tasks (deliver issues dest sched) ! i = Resolved"
  shows "dest i = None \<and>
         DustPost (documentId (issues ! i)) (content (issues ! i)) \<in> set (log (deliver issues dest sched)) \<and>
         LogUpserted (key (issues ! i)) \<in> set (log (deliver issues dest sched))"
  using logged_deliver[OF assms(1), of dest sched] assms(2) by (simp add: logged_def)

lemma settled_cases: "settled t \<Longrightarrow> t = Resolved \<or> (\<exists>e. t = Rejected e)"
  by (cases t) (simp_all add: settled_def)

lemma quiescent_task:
  assumes "quiescent (deliver issues dest sched)" "i < length issues"
  shows "tasks (deliver issues dest sched) ! i =
           (case dest i of None \<Rightarrow> Resolved | Some e \<Rightarrow> Rejected e)"
proof -
  let ?st = "deliver issues dest sched"
  from assms have "settled (tasks ?st ! i)"
    by (simp add: quiescent_def list_all_length)
  then consider "tasks ?st ! i = Resolved" | e where "tasks ?st ! i = Rejected e"
    using settled_cases by blast
  then show ?thesis
  proof cases
    case 1
    with resolved_task_logged[OF assms(2) 1] show ?thesis by simp
  next
    case 2
    with rejected_task_logged[OF assms(2) 2] show ?thesis by simp
  qed
qed





subsection \<open>C2: a failed delivery and the run\<close>






lemma count_all_but_one:
  assumes "b < length xs" "\<not> P (xs ! b)" "\<forall>i<length xs. i \<noteq> b \<longrightarrow> P (xs ! i)"
  shows "length (filter P xs) = length xs - 1"
proof -
  have xs: "xs = take b xs @ xs ! b # drop (Suc b) xs"
    using assms(1) by (rule id_take_nth_drop)
  have "\<forall>x\<in>set (take b xs). P x"
    using assms(1,3) by (auto simp: in_set_conv_nth)
  then have l: "filter P (take b xs) = take b xs" by simp
  have "\<forall>x\<in>set (drop (Suc b) xs). P x"
    using assms(1,3) by (auto simp: in_set_conv_nth)
  then have r: "filter P (drop (Suc b) xs) = drop (Suc b) xs" by simp
  have "length (filter P xs) = length (filter P (take b xs @ xs ! b # drop (Suc b) xs))"
    using xs by simp
  also have "\<dots> = length (take b xs) + length (drop (Suc b) xs)"
    using assms(2) l r by simp
  also have "\<dots> = length xs - 1"
    using assms(1) by simp
  finally show ?thesis .
qed

subsection \<open>C5: one failure among the deliveries\<close>

text \<open>
  C5. When exactly one of the deliveries of a batch is rejected by the destination:
  (1) whatever has happened so far, the run can go on until every task has settled and
  \<^verbatim>\<open>main\<close> has ended; (2) when it has, every other issue has been posted with its own
  identifier and document and has its success line, \<open>N - 1\<close> success lines in all;
  (3) at every moment, each task is as far (waiting, running, settled) as it would be at
  that moment with a destination that accepts everything: the failure holds no other
  delivery back.
\<close>

theorem one_failure_leaves_the_others:
  "b < length issues \<and> dest b = Some e \<and> (\<forall>i<length issues. i \<noteq> b \<longrightarrow> dest i = None) \<longrightarrow>
     (\<exists>rest. quiescent (deliver issues dest (sched @ rest))) \<and>
     (quiescent (deliver issues dest sched) \<longrightarrow>
        (\<forall>i<length issues. i \<noteq> b \<longrightarrow>
           DustPost (documentId (issues ! i)) (content (issues ! i))
             \<in> set (log (deliver issues dest sched)) \<and>
           LogUpserted (key (issues ! i)) \<in> set (log (deliver issues dest sched))) \<and>
        length (filter is_upserted (log (deliver issues dest sched))) = length issues - 1) \<and>
     map progress_of (tasks (deliver issues dest sched)) =
     map progress_of (tasks (deliver issues (\<lambda>i. None) sched))"
proof (intro impI conjI allI)
  assume one: "b < length issues \<and> dest b = Some e \<and> (\<forall>i<length issues. i \<noteq> b \<longrightarrow> dest i = None)"
  show "\<exists>rest. quiescent (deliver issues dest (sched @ rest))"
    by (rule deliver_can_finish)
  show "map progress_of (tasks (deliver issues dest sched)) =
     map progress_of (tasks (deliver issues (\<lambda>i. None) sched))"
    by (rule progress_deliver)
  {
    assume q: "quiescent (deliver issues dest sched)"
    let ?st = "deliver issues dest sched"
    {
      fix i assume i: "i < length issues" "i \<noteq> b"
      with one have "dest i = None" by simp
      with quiescent_task[OF q i(1)] have "tasks ?st ! i = Resolved" by simp
      from resolved_task_logged[OF i(1) this]
      show "DustPost (documentId (issues ! i)) (content (issues ! i)) \<in> set (log ?st)"
        and "LogUpserted (key (issues ! i)) \<in> set (log ?st)"
        by simp_all
    }
    have "length (filter (\<lambda>t. t = Resolved) (tasks ?st)) = length (tasks ?st) - 1"
    proof (rule count_all_but_one[of b])
      show "b < length (tasks ?st)" using one by simp
      show "tasks ?st ! b \<noteq> Resolved"
        using quiescent_task[OF q, of b] one by simp
      show "\<forall>i<length (tasks ?st). i \<noteq> b \<longrightarrow> tasks ?st ! i = Resolved"
        using quiescent_task[OF q] one by simp
    qed
    then show "length (filter is_upserted (log ?st)) = length issues - 1"
      by (simp add: counts_deliver)
  }
qed


theorem one_failure_leaves_the_others_witness:
  "quiescent (deliver [bare_issue ''OPS-1'', bare_issue ''OPS-2'']
                (\<lambda>i. if i = 0 then Some AxiosNoResponse else None)
                [Launch, Settle 0, Resume, Launch, Settle 1]) \<and>
   DustPost (documentId (bare_issue ''OPS-2'')) (content (bare_issue ''OPS-2''))
     \<in> set (log (deliver [bare_issue ''OPS-1'', bare_issue ''OPS-2'']
                 (\<lambda>i. if i = 0 then Some AxiosNoResponse else None)
                 [Launch, Settle 0, Resume, Launch, Settle 1])) \<and>
   LogUpserted ''OPS-2''
     \<in> set (log (deliver [bare_issue ''OPS-1'', bare_issue ''OPS-2'']
                 (\<lambda>i. if i = 0 then Some AxiosNoResponse else None)
                 [Launch, Settle 0, Resume, Launch, Settle 1])) \<and>
   length (filter is_upserted
     (log (deliver [bare_issue ''OPS-1'', bare_issue ''OPS-2'']
             (\<lambda>i. if i = 0 then Some AxiosNoResponse else None)
             [Launch, Settle 0, Resume, Launch, Settle 1]))) = 1"
proof -
  let ?I = "[bare_issue ''OPS-1'', bare_issue ''OPS-2'']"
  let ?D = "\<lambda>i::nat. if i = 0 then Some AxiosNoResponse else None"
  let ?S = "[Launch, Settle 0, Resume, Launch, Settle 1]"
  have one: "0 < length ?I \<and> ?D 0 = Some AxiosNoResponse \<and> (\<forall>i<length ?I. i \<noteq> 0 \<longrightarrow> ?D i = None)"
    by simp
  have q: "quiescent (deliver ?I ?D ?S)"
    by (subst deliver_two_first_fails_all) (simp add: quiescent_def settled_def)
  from one_failure_leaves_the_others[of 0 ?I ?D AxiosNoResponse ?S, THEN mp, OF one,
      THEN conjunct2, THEN conjunct1, THEN mp, OF q]
  have others: "\<forall>i<length ?I. i \<noteq> 0 \<longrightarrow>
           DustPost (documentId (?I ! i)) (content (?I ! i)) \<in> set (log (deliver ?I ?D ?S)) \<and>
           LogUpserted (key (?I ! i)) \<in> set (log (deliver ?I ?D ?S))"
    and n: "length (filter is_upserted (log (deliver ?I ?D ?S))) = length ?I - 1"
    by blast+
  from others[rule_format, of 1]
  have "DustPost (documentId (bare_issue ''OPS-2'')) (content (bare_issue ''OPS-2''))
          \<in> set (log (deliver ?I ?D ?S))"
    and "LogUpserted ''OPS-2'' \<in> set (log (deliver ?I ?D ?S))"
    by simp_all
  with q n show ?thesis by simp
qed

section \<open>The rate limit, from the request to the run\<close>

subsection \<open>C4: the rate limit\<close>

lemma makeRequest_exhausts:
  assumes "src s0 off = (Failure (AxiosResponseError 429 h0), s1)"
    and "src s1 off = (Failure (AxiosResponseError 429 h1), s2)"
    and "src s2 off = (Failure (AxiosResponseError 429 h2), s3)"
    and "src s3 off = (Failure (AxiosResponseError 429 h3), s4)"
  shows "makeRequest src off 0 s0 =
     (Inl (AxiosResponseError 429 h3),
      [JiraPost off, LogRateLimited (retryAfter h0), Sleep (millis (retryAfter h0)),
       JiraPost off, LogRateLimited (retryAfter h1), Sleep (millis (retryAfter h1)),
       JiraPost off, LogRateLimited (retryAfter h2), Sleep (millis (retryAfter h2)),
       JiraPost off],
      s4)"
proof -
  have three: "makeRequest src off 3 s3 = (Inl (AxiosResponseError 429 h3), [JiraPost off], s4)"
    using makeRequest_429_exhausted[of src s3 off h3 s4 3] assms(4) by simp
  have two: "makeRequest src off 2 s2 =
      (Inl (AxiosResponseError 429 h3),
       [JiraPost off, LogRateLimited (retryAfter h2), Sleep (millis (retryAfter h2)), JiraPost off], s4)"
    using makeRequest_429_retry[of src s2 off h2 s3 2] assms(3) three
    by (simp add: numeral_3_eq_3 numeral_2_eq_2)
  have one: "makeRequest src off 1 s1 =
      (Inl (AxiosResponseError 429 h3),
       [JiraPost off, LogRateLimited (retryAfter h1), Sleep (millis (retryAfter h1)),
        JiraPost off, LogRateLimited (retryAfter h2), Sleep (millis (retryAfter h2)), JiraPost off], s4)"
    using makeRequest_429_retry[of src s1 off h1 s2 1] assms(2) two
    by (simp add: numeral_2_eq_2)
  show ?thesis
    using makeRequest_429_retry[of src s0 off h0 s1 0] assms(1) one by simp
qed















lemma limited_exhausts:
  "makeRequest limited_source 50 0 () =
     (Inl (AxiosResponseError 429 (Some ''1'')),
      [JiraPost 50, LogRateLimited (retryAfter (Some ''1'')), Sleep (millis (retryAfter (Some ''1''))),
       JiraPost 50, LogRateLimited (retryAfter (Some ''1'')), Sleep (millis (retryAfter (Some ''1''))),
       JiraPost 50, LogRateLimited (retryAfter (Some ''1'')), Sleep (millis (retryAfter (Some ''1''))),
       JiraPost 50],
      ())"
  by (rule makeRequest_exhausts) (simp_all add: limited_source_def)









section \<open>The ceiling of the sink\<close>

text \<open>What the limiter of the sink keeps true of the running jobs and of the requests.\<close>


lemma step_Launch_none: "first_queued (tasks st) = None \<Longrightarrow> step issues dest st Launch = st"
  by (simp add: step.simps)

lemma step_Launch_full: "\<not> running (tasks st) < maxConcurrent \<Longrightarrow> step issues dest st Launch = st"
  by (simp add: step.simps split: option.splits)

lemma running_step:
  assumes "running (tasks st) \<le> maxConcurrent"
  shows "running (tasks (step issues dest st a)) \<le> maxConcurrent"
proof (cases a)
  case Launch
  show ?thesis
  proof (cases "first_queued (tasks st)")
    case None
    with Launch assms show ?thesis by (simp add: step_Launch_none)
  next
    case (Some i)
    show ?thesis
    proof (cases "running (tasks st) < maxConcurrent")
      case False
      with Launch assms show ?thesis by (simp add: step_Launch_full)
    next
      case True
      from first_queued_Some[OF Some] have i: "i < length (tasks st)" "tasks st ! i = Queued"
        by simp_all
      have "length (filter (\<lambda>t. t = Running) ((tasks st)[i := Running])) =
              Suc (length (filter (\<lambda>t. t = Running) (tasks st)))"
        using i by (intro count_enter) simp_all
      with True Launch show ?thesis
        by (simp add: step_Launch[OF Some True] running_def)
    qed
  qed
next
  case (Settle i)
  show ?thesis
  proof (cases "i < length (tasks st) \<and> tasks st ! i = Running")
    case False
    with Settle assms show ?thesis by (simp add: step_Settle_idle)
  next
    case True
    let ?w = "case dest i of None \<Rightarrow> Resolved | Some err \<Rightarrow> Rejected err"
    have w: "?w \<noteq> Running" by (simp split: option.splits)
    have "Suc (length (filter (\<lambda>t. t = Running) ((tasks st)[i := ?w]))) =
            length (filter (\<lambda>t. t = Running) (tasks st))"
      using True w by (intro count_leave) simp_all
    with True Settle assms show ?thesis
      by (simp add: step_Settle_tasks running_def)
  qed
next
  case Resume
  with assms show ?thesis by (simp add: step_Resume_tasks)
qed

lemma running_deliver: "running (tasks (deliver issues dest sched)) \<le> maxConcurrent"
proof (induction sched rule: rev_induct)
  case Nil
  show ?case by (simp add: deliver_Nil scheduled_def running_def)
next
  case (snoc a sched)
  then show ?case by (simp add: deliver_snoc running_step)
qed

lemma count_stay:
  "i < length xs \<Longrightarrow> P (xs ! i) \<Longrightarrow> P w \<Longrightarrow>
   length (filter P (xs[i := w])) = length (filter P xs)"
  using count_update[of i xs P w] by simp

lemma settled_stays_step:
  assumes "i < length (tasks st)" "settled (tasks st ! i)"
  shows "tasks (step issues dest st a) ! i = tasks st ! i"
proof (cases rule: step_cases[of issues dest st a])
  case idle
  then show ?thesis by simp
next
  case (launch j)
  with assms have "i \<noteq> j" by (auto simp: settled_def)
  with launch show ?thesis by simp
next
  case (resolve j)
  with assms have "i \<noteq> j" by (auto simp: settled_def)
  with resolve show ?thesis by simp
next
  case (reject j err)
  with assms have "i \<noteq> j" by (auto simp: settled_def)
  with reject show ?thesis by simp
next
  case resume_ok
  then show ?thesis by simp
next
  case (resume_err err)
  then show ?thesis by simp
qed

lemma settled_stays:
  "i < length (tasks st) \<Longrightarrow> settled (tasks st ! i) \<Longrightarrow>
   tasks (foldl (step issues dest) st rest) ! i = tasks st ! i"
proof (induction rest arbitrary: st)
  case Nil
  then show ?case by simp
next
  case (Cons a rest)
  from settled_stays_step[OF Cons.prems, of issues dest a]
  have same: "tasks (step issues dest st a) ! i = tasks st ! i" .
  with Cons.prems have "i < length (tasks (step issues dest st a))"
    "settled (tasks (step issues dest st a) ! i)" by simp_all
  from Cons.IH[OF this] same show ?case by simp
qed


text \<open>The run with times.\<close>

lemma timed_deliver_Nil:
  "timed_deliver issues dest [] = \<lparr> run = scheduled issues, clock = 0, starts = [] \<rparr>"
  by (simp add: timed_deliver_def)

lemma timed_deliver_snoc:
  "timed_deliver issues dest (tsched @ [ta]) =
     timed_step issues dest (timed_deliver issues dest tsched) ta"
  by (simp add: timed_deliver_def)

lemma timed_deliver_append:
  "timed_deliver issues dest (tsched @ rest) =
     foldl (timed_step issues dest) (timed_deliver issues dest tsched) rest"
  by (simp add: timed_deliver_def)

text \<open>A timed step is a step of the sink, or leaves the sink as it is.\<close>

lemma timed_step_run:
  "run (timed_step issues dest ts (t, a)) = run ts \<or>
   run (timed_step issues dest ts (t, a)) = step issues dest (run ts) a"
  by (cases a) simp_all

lemma timed_foldl_is_untimed:
  "\<exists>sched. run (foldl (timed_step issues dest) ts tsched) = foldl (step issues dest) (run ts) sched"
proof (induction tsched rule: rev_induct)
  case Nil
  have "run (foldl (timed_step issues dest) ts []) = foldl (step issues dest) (run ts) []" by simp
  then show ?case ..
next
  case (snoc ta tsched)
  then obtain sched where
    sched: "run (foldl (timed_step issues dest) ts tsched) = foldl (step issues dest) (run ts) sched" ..
  obtain t a where ta: "ta = (t, a)" by (cases ta) auto
  let ?ts = "foldl (timed_step issues dest) ts tsched"
  from timed_step_run[of issues dest ?ts t a] show ?case
  proof
    assume "run (timed_step issues dest ?ts (t, a)) = run ?ts"
    with sched ta have "run (foldl (timed_step issues dest) ts (tsched @ [ta])) =
        foldl (step issues dest) (run ts) sched" by simp
    then show ?thesis ..
  next
    assume "run (timed_step issues dest ?ts (t, a)) = step issues dest (run ?ts) a"
    with sched ta have "run (foldl (timed_step issues dest) ts (tsched @ [ta])) =
        foldl (step issues dest) (run ts) (sched @ [a])" by simp
    then show ?thesis ..
  qed
qed

lemma timed_is_untimed:
  "\<exists>sched. run (timed_deliver issues dest tsched) = deliver issues dest sched"
  using timed_foldl_is_untimed[of issues dest "\<lparr> run = scheduled issues, clock = 0, starts = [] \<rparr>" tsched]
  by (simp add: timed_deliver_def deliver_def)

text \<open>Starts that keep their distance, and how many fit into a minute.\<close>

lemma spaced_snoc:
  "spaced xs \<Longrightarrow> \<forall>x\<in>set xs. x + minTime \<le> t \<Longrightarrow> spaced (xs @ [t])"
  by (induction xs) auto

lemma spaced_le_last:
  "spaced xs \<Longrightarrow> x \<in> set xs \<Longrightarrow> x \<le> last xs"
proof (induction xs)
  case Nil
  then show ?case by simp
next
  case (Cons y ys)
  show ?case
  proof (cases "ys = []")
    case True
    with Cons.prems show ?thesis by simp
  next
    case False
    then have l: "last ys \<in> set ys" by simp
    show ?thesis
    proof (cases "x = y")
      case True
      from Cons.prems(1) l have "y + minTime \<le> last ys" by simp
      with True \<open>ys \<noteq> []\<close> show ?thesis by simp
    next
      case False
      with Cons show ?thesis by auto
    qed
  qed
qed

lemma spaced_filter: "spaced xs \<Longrightarrow> spaced (filter P xs)"
  by (induction xs) auto

lemma spaced_span:
  "spaced xs \<Longrightarrow> \<forall>x\<in>set xs. lo \<le> x \<and> x < hi \<Longrightarrow> xs = [] \<or> lo + minTime * length xs < hi + minTime"
proof (induction xs arbitrary: lo)
  case Nil
  then show ?case by simp
next
  case (Cons x ys)
  show ?case
  proof (cases "ys = []")
    case True
    with Cons.prems show ?thesis by simp
  next
    case False
    from Cons.prems have "spaced ys" "\<forall>y\<in>set ys. lo + minTime \<le> y \<and> y < hi"
      by auto
    from Cons.IH[OF this] False have "lo + minTime + minTime * length ys < hi + minTime"
      by simp
    then show ?thesis by simp
  qed
qed

lemma spaced_window:
  assumes "spaced xs"
  shows "length (filter (\<lambda>x. w \<le> x \<and> x < w + 60000) xs) \<le> 120"
proof -
  let ?in = "filter (\<lambda>x. w \<le> x \<and> x < w + 60000) xs"
  have "spaced ?in" using assms by (rule spaced_filter)
  moreover have "\<forall>x\<in>set ?in. w \<le> x \<and> x < w + 60000" by simp
  ultimately have "?in = [] \<or> w + minTime * length ?in < w + 60000 + minTime"
    by (rule spaced_span)
  then show ?thesis
    by (auto simp: minTime_def DUST_RATE_LIMIT_def)
qed

lemma timely_step:
  assumes "timely ts"
  shows "timely (timed_step issues dest ts (t, a))"
proof (cases "t < clock ts")
  case True
  with assms show ?thesis by (cases a) simp_all
next
  case False
  then have le: "\<forall>x\<in>set (starts ts). x \<le> t" using assms by (auto simp: timely_def)
  show ?thesis
  proof (cases "a = Launch \<and> may_launch (starts ts) t \<and> first_queued (tasks (run ts)) \<noteq> None \<and>
                running (tasks (run ts)) < maxConcurrent")
    case True
    have "\<forall>x\<in>set (starts ts). x + minTime \<le> t"
    proof
      fix x assume x: "x \<in> set (starts ts)"
      then have "starts ts \<noteq> []" by auto
      with True have "last (starts ts) + minTime \<le> t" by (simp add: may_launch_def)
      moreover from assms x have "x \<le> last (starts ts)"
        by (simp add: timely_def spaced_le_last)
      ultimately show "x + minTime \<le> t" by simp
    qed
    with assms have "spaced (starts ts @ [t])" by (simp add: timely_def spaced_snoc)
    with True False le show ?thesis by (simp add: timely_def)
  next
    case no: False
    with False assms le show ?thesis by (cases a) (auto simp: timely_def)
  qed
qed

lemma timely_deliver: "timely (timed_deliver issues dest tsched)"
proof (induction tsched rule: rev_induct)
  case Nil
  show ?case by (simp add: timed_deliver_Nil timely_def)
next
  case (snoc ta tsched)
  obtain t a where "ta = (t, a)" by (cases ta) auto
  with snoc show ?case by (simp add: timed_deliver_snoc timely_step)
qed

lemma nonqueued_other_step:
  assumes "a \<noteq> Launch"
  shows "length (filter (\<lambda>k. k \<noteq> Queued) (tasks (step issues dest st a))) =
         length (filter (\<lambda>k. k \<noteq> Queued) (tasks st))"
proof (cases rule: step_cases[of issues dest st a])
  case idle
  then show ?thesis by simp
next
  case (launch j)
  with assms show ?thesis by simp
next
  case (resolve j)
  then show ?thesis by (simp add: count_stay)
next
  case (reject j err)
  then show ?thesis by (simp add: count_stay)
next
  case resume_ok
  then show ?thesis by simp
next
  case (resume_err err)
  then show ?thesis by simp
qed

lemma starts_count_step:
  assumes "length (starts ts) = length (filter (\<lambda>k. k \<noteq> Queued) (tasks (run ts)))"
  shows "length (starts (timed_step issues dest ts (t, a))) =
         length (filter (\<lambda>k. k \<noteq> Queued) (tasks (run (timed_step issues dest ts (t, a)))))"
proof (cases a)
  case Launch
  show ?thesis
  proof (cases "\<not> t < clock ts \<and> may_launch (starts ts) t \<and> first_queued (tasks (run ts)) \<noteq> None \<and>
                running (tasks (run ts)) < maxConcurrent")
    case True
    then obtain i where i: "first_queued (tasks (run ts)) = Some i" by auto
    from first_queued_Some[OF i] have "i < length (tasks (run ts))" "tasks (run ts) ! i = Queued"
      by simp_all
    then have "length (filter (\<lambda>k. k \<noteq> Queued) ((tasks (run ts))[i := Running])) =
          Suc (length (filter (\<lambda>k. k \<noteq> Queued) (tasks (run ts))))"
      by (intro count_enter) simp_all
    with True Launch assms i show ?thesis
      by (simp add: step_Launch[OF i])
  next
    case False
    with Launch assms show ?thesis by auto
  qed
next
  case (Settle i)
  with assms show ?thesis by (simp add: nonqueued_other_step)
next
  case Resume
  with assms show ?thesis by (simp add: nonqueued_other_step)
qed

lemma starts_count_deliver:
  "length (starts (timed_deliver issues dest tsched)) =
   length (filter (\<lambda>k. k \<noteq> Queued) (tasks (run (timed_deliver issues dest tsched))))"
proof (induction tsched rule: rev_induct)
  case Nil
  show ?case by (simp add: timed_deliver_Nil scheduled_def)
next
  case (snoc ta tsched)
  obtain t a where "ta = (t, a)" by (cases ta) auto
  with snoc show ?case by (simp add: timed_deliver_snoc starts_count_step)
qed

text \<open>Every schedule of the sink can be given times.\<close>

lemma timed_follows:
  assumes "timely ts"
  shows "\<exists>tas. run (foldl (timed_step issues dest) ts tas) = foldl (step issues dest) (run ts) as"
  using assms
proof (induction as arbitrary: ts)
  case Nil
  have "run (foldl (timed_step issues dest) ts []) = foldl (step issues dest) (run ts) []" by simp
  then show ?case ..
next
  case (Cons a as)
  let ?t = "clock ts + minTime"
  let ?ts = "timed_step issues dest ts (?t, a)"
  have may: "may_launch (starts ts) ?t"
  proof (cases "starts ts = []")
    case True
    then show ?thesis by (simp add: may_launch_def)
  next
    case False
    then have "last (starts ts) \<in> set (starts ts)" by simp
    with Cons.prems have "last (starts ts) \<le> clock ts" by (simp add: timely_def)
    then show ?thesis by (simp add: may_launch_def)
  qed
  have r: "run ?ts = step issues dest (run ts) a"
  proof (cases a)
    case Launch
    show ?thesis
    proof (cases "first_queued (tasks (run ts)) \<noteq> None \<and> running (tasks (run ts)) < maxConcurrent")
      case True
      with Launch may show ?thesis by simp
    next
      case False
      then have "step issues dest (run ts) Launch = run ts"
        using step_Launch_none step_Launch_full by blast
      with Launch False show ?thesis by auto
    qed
  next
    case (Settle i)
    then show ?thesis by simp
  next
    case Resume
    then show ?thesis by simp
  qed
  from timely_step[OF Cons.prems] have "timely ?ts" .
  from Cons.IH[OF this] obtain tas where
    "run (foldl (timed_step issues dest) ?ts tas) = foldl (step issues dest) (run ?ts) as" ..
  with r have "run (foldl (timed_step issues dest) ts ((?t, a) # tas)) =
      foldl (step issues dest) (run ts) (a # as)" by simp
  then show ?case ..
qed

lemma timed_can_finish:
  "\<exists>rest. quiescent (run (timed_deliver issues dest (tsched @ rest)))"
proof -
  let ?ts = "timed_deliver issues dest tsched"
  from timed_is_untimed[of issues dest tsched] obtain sched where
    s: "run ?ts = deliver issues dest sched" ..
  then have "promise_inv (run ?ts)" by (simp add: promise_inv_deliver)
  from run_to_quiescence[OF this, of issues dest] obtain as where
    q: "quiescent (foldl (step issues dest) (run ?ts) as)" ..
  from timed_follows[OF timely_deliver[of issues dest tsched], of issues dest as] obtain tas where
    "run (foldl (timed_step issues dest) ?ts tas) = foldl (step issues dest) (run ?ts) as" ..
  with q have "quiescent (run (timed_deliver issues dest (tsched @ tas)))"
    by (simp add: timed_deliver_append)
  then show ?thesis ..
qed

lemma timed_settled_stays:
  assumes "i < length issues" "settled (tasks (run (timed_deliver issues dest tsched)) ! i)"
  shows "tasks (run (timed_deliver issues dest (tsched @ rest))) ! i =
         tasks (run (timed_deliver issues dest tsched)) ! i"
proof -
  let ?ts = "timed_deliver issues dest tsched"
  from timed_is_untimed[of issues dest tsched] obtain sched where
    s: "run ?ts = deliver issues dest sched" ..
  from timed_foldl_is_untimed[of issues dest ?ts rest] obtain as where
    "run (foldl (timed_step issues dest) ?ts rest) = foldl (step issues dest) (run ?ts) as" ..
  moreover have "tasks (foldl (step issues dest) (run ?ts) as) ! i = tasks (run ?ts) ! i"
    using assms s by (intro settled_stays) simp_all
  ultimately show ?thesis by (simp add: timed_deliver_append)
qed


text \<open>The requests are sent in the order of the issues, one for each start.\<close>

lemma first_queued_split:
  "Queued \<notin> set pre \<Longrightarrow>
   first_queued (pre @ replicate m Queued) = (if m = 0 then None else Some (length pre))"
  by (induction pre) (auto simp: gr0_conv_Suc)

lemma posts_in_order_step:
  assumes t: "tasks st = pre @ replicate m Queued" and q: "Queued \<notin> set pre"
    and p: "filter is_post (log st) = map post_of (take (length pre) issues)"
    and l: "length (tasks st) = length issues"
  shows "\<exists>pre' m'. tasks (step issues dest st a) = pre' @ replicate m' Queued \<and> Queued \<notin> set pre' \<and>
           filter is_post (log (step issues dest st a)) = map post_of (take (length pre') issues)"
proof -
  have keep: ?thesis if "tasks (step issues dest st a) = tasks st"
      "filter is_post (log (step issues dest st a)) = filter is_post (log st)"
  proof -
    from that t q p have "tasks (step issues dest st a) = pre @ replicate m Queued \<and> Queued \<notin> set pre \<and>
           filter is_post (log (step issues dest st a)) = map post_of (take (length pre) issues)"
      by simp
    then show ?thesis by blast
  qed
  have settle: ?thesis if i: "i < length (tasks st)" "tasks st ! i = Running"
      and w: "w \<noteq> Queued" and ts: "tasks (step issues dest st a) = (tasks st)[i := w]"
      and lg: "filter is_post (log (step issues dest st a)) = filter is_post (log st)" for i w
  proof -
    have "i < length pre"
    proof (rule ccontr)
      assume "\<not> i < length pre"
      with i(1) t have "tasks st ! i = Queued" by (simp add: nth_append)
      with i(2) show False by simp
    qed
    then have "(tasks st)[i := w] = pre[i := w] @ replicate m Queued"
      by (simp add: t list_update_append)
    moreover have "Queued \<notin> set (pre[i := w])"
      using q w set_update_subset_insert[of pre i w] by auto
    ultimately have "tasks (step issues dest st a) = pre[i := w] @ replicate m Queued \<and>
        Queued \<notin> set (pre[i := w]) \<and>
        filter is_post (log (step issues dest st a)) = map post_of (take (length (pre[i := w])) issues)"
      using ts lg p by simp
    then show ?thesis by blast
  qed
  show ?thesis
  proof (cases a)
    case Launch
    show ?thesis
    proof (cases "first_queued (tasks st) \<noteq> None \<and> running (tasks st) < maxConcurrent")
      case False
      then have "step issues dest st Launch = st"
        using step_Launch_none step_Launch_full by blast
      with Launch show ?thesis by (intro keep) simp_all
    next
      case True
      then obtain i where i: "first_queued (tasks st) = Some i" by auto
      with first_queued_split[OF q, of m] t have m: "m \<noteq> 0" and il: "i = length pre"
        by (auto split: if_splits)
      from m obtain m' where m': "m = Suc m'" by (cases m) auto
      from l t m' have lt: "length pre < length issues" by simp
      have "(tasks st)[i := Running] = (pre @ [Running]) @ replicate m' Queued"
        by (simp add: t il m' list_update_append)
      moreover have "Queued \<notin> set (pre @ [Running])" using q by simp
      moreover have "filter is_post (log st @ [DustPost (documentId (issues ! i)) (content (issues ! i))]) =
          map post_of (take (length (pre @ [Running])) issues)"
        using p lt il by (simp add: take_Suc_conv_app_nth post_of_def)
      ultimately have "tasks (step issues dest st a) = (pre @ [Running]) @ replicate m' Queued \<and>
          Queued \<notin> set (pre @ [Running]) \<and>
          filter is_post (log (step issues dest st a)) = map post_of (take (length (pre @ [Running])) issues)"
        using Launch True i by (simp add: step_Launch[OF i])
      then show ?thesis by blast
    qed
  next
    case (Settle i)
    show ?thesis
    proof (cases "i < length (tasks st) \<and> tasks st ! i = Running")
      case False
      with Settle have "step issues dest st a = st" by (simp add: step_Settle_idle)
      then show ?thesis by (intro keep) simp_all
    next
      case True
      let ?w = "case dest i of None \<Rightarrow> Resolved | Some err \<Rightarrow> Rejected err"
      have "?w \<noteq> Queued" by (simp split: option.splits)
      moreover have "tasks (step issues dest st a) = (tasks st)[i := ?w]"
        using True Settle by (simp add: step_Settle_tasks)
      moreover have "filter is_post (log (step issues dest st a)) = filter is_post (log st)"
        using True Settle by (simp add: step.simps split: option.splits)
      ultimately show ?thesis using True by (intro settle[of i ?w]) simp_all
    qed
  next
    case Resume
    then show ?thesis
      by (intro keep) (simp_all add: step.simps split: promise.splits)
  qed
qed

lemma posts_in_order_aux:
  "\<exists>pre m. tasks (deliver issues dest sched) = pre @ replicate m Queued \<and> Queued \<notin> set pre \<and>
     filter is_post (log (deliver issues dest sched)) = map post_of (take (length pre) issues)"
proof (induction sched rule: rev_induct)
  case Nil
  have "tasks (deliver issues dest []) = [] @ replicate (length issues) Queued \<and> Queued \<notin> set [] \<and>
     filter is_post (log (deliver issues dest [])) = map post_of (take (length ([] :: task list)) issues)"
    by (simp add: deliver_Nil scheduled_def map_replicate_const)
  then show ?case by blast
next
  case (snoc a sched)
  then obtain pre m where
    "tasks (deliver issues dest sched) = pre @ replicate m Queued" "Queued \<notin> set pre"
    "filter is_post (log (deliver issues dest sched)) = map post_of (take (length pre) issues)"
    by blast
  from posts_in_order_step[OF this, of dest a] show ?case
    by (simp add: deliver_snoc length_tasks_deliver)
qed

lemma posts_in_order:
  "filter is_post (log (deliver issues dest sched)) =
   map post_of (take (length (filter (\<lambda>k. k \<noteq> Queued) (tasks (deliver issues dest sched)))) issues)"
proof -
  from posts_in_order_aux[of issues dest sched] obtain pre m where
    t: "tasks (deliver issues dest sched) = pre @ replicate m Queued" and q: "Queued \<notin> set pre" and
    p: "filter is_post (log (deliver issues dest sched)) = map post_of (take (length pre) issues)"
    by blast
  from q have "filter (\<lambda>k. k \<noteq> Queued) pre = pre" by (auto simp: filter_id_conv)
  then have "filter (\<lambda>k. k \<noteq> Queued) (tasks (deliver issues dest sched)) = pre"
    by (simp add: t)
  with p show ?thesis by simp
qed

lemma timed_posts_in_order:
  "filter is_post (log (run (timed_deliver issues dest tsched))) =
   map post_of (take (length (starts (timed_deliver issues dest tsched))) issues)"
proof -
  from timed_is_untimed[of issues dest tsched] obtain sched where
    "run (timed_deliver issues dest tsched) = deliver issues dest sched" ..
  with posts_in_order[of issues dest sched] show ?thesis
    by (simp add: starts_count_deliver)
qed

lemma starts_at_most: "length (starts (timed_deliver issues dest tsched)) \<le> length issues"
proof -
  from timed_is_untimed[of issues dest tsched] obtain sched where
    s: "run (timed_deliver issues dest tsched) = deliver issues dest sched" ..
  have "length (filter (\<lambda>k. k \<noteq> Queued) (tasks (deliver issues dest sched))) \<le>
          length (tasks (deliver issues dest sched))"
    by (rule length_filter_le)
  with s show ?thesis by (simp add: starts_count_deliver length_tasks_deliver)
qed

lemma starts_when_quiescent:
  assumes "quiescent (run (timed_deliver issues dest tsched))"
  shows "length (starts (timed_deliver issues dest tsched)) = length issues"
proof -
  from timed_is_untimed[of issues dest tsched] obtain sched where
    s: "run (timed_deliver issues dest tsched) = deliver issues dest sched" ..
  from assms s have "\<forall>k\<in>set (tasks (deliver issues dest sched)). k \<noteq> Queued"
    by (auto simp: quiescent_def list_all_iff settled_def)
  then have "filter (\<lambda>k. k \<noteq> Queued) (tasks (deliver issues dest sched)) = tasks (deliver issues dest sched)"
    by simp
  with s show ?thesis by (simp add: starts_count_deliver length_tasks_deliver)
qed

lemma timed_running: "running (tasks (run (timed_deliver issues dest tsched))) \<le> maxConcurrent"
proof -
  from timed_is_untimed[of issues dest tsched] obtain sched where
    s: "run (timed_deliver issues dest tsched) = deliver issues dest sched" ..
  with running_deliver[of issues dest sched] show ?thesis by simp
qed

lemma untimed_is_timed:
  "\<exists>tsched. run (timed_deliver issues dest tsched) = deliver issues dest sched"
proof -
  have "timely \<lparr> run = scheduled issues, clock = 0, starts = [] \<rparr>" by (simp add: timely_def)
  from timed_follows[OF this, of issues dest sched] show ?thesis
    by (simp add: timed_deliver_def deliver_def)
qed


subsection \<open>C8: the ceiling of the sink\<close>

text \<open>
  C8. The limiter is taken by its documented contract: it starts queued jobs in order,
  only while fewer than \<^verbatim>\<open>maxConcurrent\<close> are running, and not before \<^verbatim>\<open>minTime\<close>
  milliseconds have passed since the start before. With the options that \<^verbatim>\<open>main\<close>
  gives it, 120 and 500 ms, in every run and at every moment of it: (1) at most 120
  deliveries are in flight; (2) at most 120 deliveries have been started in any window
  of 60000 ms, and two starts are at least 500 ms apart; (3) the requests sent so far
  are those of the first issues, one for each start, in the order of the issues, so that
  no issue is posted twice, also not one whose delivery failed; (4) when nothing is left
  to happen every issue has been posted exactly once, and (5) every run can be continued
  to that point; (6) a delivery that has settled, resolved or rejected, stays as it is
  whatever happens later; (7) the runs with times and the runs of \<^verbatim>\<open>main\<close> reach the
  same states of the sink, and (1) and (3) hold of the latter as well.
\<close>

theorem delivery_ceiling:
  "maxConcurrent = 120 \<and> minTime = 500 \<and>
   running (tasks (run (timed_deliver issues dest tsched))) \<le> 120 \<and>
   length (filter (\<lambda>x. w \<le> x \<and> x < w + 60000) (starts (timed_deliver issues dest tsched))) \<le> 120 \<and>
   spaced (starts (timed_deliver issues dest tsched)) \<and>
   filter is_post (log (run (timed_deliver issues dest tsched))) =
     map post_of (take (length (starts (timed_deliver issues dest tsched))) issues) \<and>
   length (starts (timed_deliver issues dest tsched)) \<le> length issues \<and>
   (quiescent (run (timed_deliver issues dest tsched)) \<longrightarrow>
      filter is_post (log (run (timed_deliver issues dest tsched))) = map post_of issues) \<and>
   (\<exists>rest. quiescent (run (timed_deliver issues dest (tsched @ rest)))) \<and>
   (i < length issues \<and> settled (tasks (run (timed_deliver issues dest tsched)) ! i) \<longrightarrow>
      tasks (run (timed_deliver issues dest (tsched @ later))) ! i =
      tasks (run (timed_deliver issues dest tsched)) ! i) \<and>
   (\<exists>sched. run (timed_deliver issues dest tsched) = deliver issues dest sched) \<and>
   (\<exists>tsched'. run (timed_deliver issues dest tsched') = deliver issues dest sched') \<and>
   running (tasks (deliver issues dest sched')) \<le> 120 \<and>
   filter is_post (log (deliver issues dest sched')) =
     map post_of (take (length (filter (\<lambda>k. k \<noteq> Queued) (tasks (deliver issues dest sched')))) issues)"
proof (intro conjI impI)
  show "maxConcurrent = 120" by (simp add: maxConcurrent_def DUST_RATE_LIMIT_def)
  show "minTime = 500" by (simp add: minTime_def DUST_RATE_LIMIT_def)
  show "running (tasks (run (timed_deliver issues dest tsched))) \<le> 120"
    using timed_running[of issues dest tsched] by (simp add: maxConcurrent_def DUST_RATE_LIMIT_def)
  show "running (tasks (deliver issues dest sched')) \<le> 120"
    using running_deliver[of issues dest sched'] by (simp add: maxConcurrent_def DUST_RATE_LIMIT_def)
  show "spaced (starts (timed_deliver issues dest tsched))"
    using timely_deliver[of issues dest tsched] by (simp add: timely_def)
  then show "length (filter (\<lambda>x. w \<le> x \<and> x < w + 60000) (starts (timed_deliver issues dest tsched))) \<le> 120"
    by (rule spaced_window)
  show "filter is_post (log (run (timed_deliver issues dest tsched))) =
     map post_of (take (length (starts (timed_deliver issues dest tsched))) issues)"
    by (rule timed_posts_in_order)
  show "length (starts (timed_deliver issues dest tsched)) \<le> length issues"
    by (rule starts_at_most)
  show "\<exists>rest. quiescent (run (timed_deliver issues dest (tsched @ rest)))"
    by (rule timed_can_finish)
  show "\<exists>sched. run (timed_deliver issues dest tsched) = deliver issues dest sched"
    by (rule timed_is_untimed)
  show "\<exists>tsched'. run (timed_deliver issues dest tsched') = deliver issues dest sched'"
    by (rule untimed_is_timed)
  show "filter is_post (log (deliver issues dest sched')) =
     map post_of (take (length (filter (\<lambda>k. k \<noteq> Queued) (tasks (deliver issues dest sched')))) issues)"
    by (rule posts_in_order)
  {
    assume "quiescent (run (timed_deliver issues dest tsched))"
    then show "filter is_post (log (run (timed_deliver issues dest tsched))) = map post_of issues"
      by (simp add: timed_posts_in_order starts_when_quiescent)
  }
  {
    assume "i < length issues \<and> settled (tasks (run (timed_deliver issues dest tsched)) ! i)"
    then show "tasks (run (timed_deliver issues dest (tsched @ later))) ! i =
      tasks (run (timed_deliver issues dest tsched)) ! i"
      by (simp add: timed_settled_stays)
  }
qed

lemma timed_two_first_fails:
  "timed_deliver [bare_issue ''OPS-1'', bare_issue ''OPS-2'']
     (\<lambda>i. if i = 0 then Some AxiosNoResponse else None)
     [(0, Launch), (120, Settle 0), (120, Resume), (200, Launch), (500, Launch), (730, Settle 1)] =
   \<lparr> run = \<lparr> tasks = [Rejected AxiosNoResponse, Resolved],
             all_tasks = RejectedWith AxiosNoResponse,
             main_done = True,
             log = [DustPost (documentId (bare_issue ''OPS-1'')) (content (bare_issue ''OPS-1'')),
                    ErrUpserting ''OPS-1'' AxiosNoResponse,
                    ErrOccurred AxiosNoResponse,
                    DustPost (documentId (bare_issue ''OPS-2'')) (content (bare_issue ''OPS-2'')),
                    LogUpserted ''OPS-2''] \<rparr>,
     clock = 730, starts = [0, 500] \<rparr>"
  by (simp add: timed_deliver_def scheduled_def step.simps running_def maxConcurrent_def
      minTime_def may_launch_def DUST_RATE_LIMIT_def key_bare_issue)

theorem delivery_ceiling_witness:
  "quiescent (run (timed_deliver [bare_issue ''OPS-1'', bare_issue ''OPS-2'']
     (\<lambda>i. if i = 0 then Some AxiosNoResponse else None)
     [(0, Launch), (120, Settle 0), (120, Resume), (200, Launch), (500, Launch), (730, Settle 1)])) \<and>
   starts (timed_deliver [bare_issue ''OPS-1'', bare_issue ''OPS-2'']
     (\<lambda>i. if i = 0 then Some AxiosNoResponse else None)
     [(0, Launch), (120, Settle 0), (120, Resume), (200, Launch), (500, Launch), (730, Settle 1)]) = [0, 500] \<and>
   filter is_post (log (run (timed_deliver [bare_issue ''OPS-1'', bare_issue ''OPS-2'']
     (\<lambda>i. if i = 0 then Some AxiosNoResponse else None)
     [(0, Launch), (120, Settle 0), (120, Resume), (200, Launch), (500, Launch), (730, Settle 1)]))) =
     [post_of (bare_issue ''OPS-1''), post_of (bare_issue ''OPS-2'')] \<and>
   settled (tasks (run (timed_deliver [bare_issue ''OPS-1'', bare_issue ''OPS-2'']
     (\<lambda>i. if i = 0 then Some AxiosNoResponse else None)
     [(0, Launch), (120, Settle 0), (120, Resume), (200, Launch), (500, Launch), (730, Settle 1)])) ! 0) \<and>
   tasks (run (timed_deliver [bare_issue ''OPS-1'', bare_issue ''OPS-2'']
     (\<lambda>i. if i = 0 then Some AxiosNoResponse else None)
     ([(0, Launch), (120, Settle 0), (120, Resume), (200, Launch), (500, Launch), (730, Settle 1)] @
      [(1300, Launch), (1400, Settle 0)]))) ! 0 = Rejected AxiosNoResponse"
proof -
  let ?I = "[bare_issue ''OPS-1'', bare_issue ''OPS-2'']"
  let ?D = "\<lambda>i::nat. if i = 0 then Some AxiosNoResponse else None"
  let ?S = "[(0, Launch), (120, Settle 0), (120, Resume), (200, Launch), (500, Launch), (730, Settle 1)]"
  let ?L = "[(1300, Launch), (1400, Settle 0)]"
  have q: "quiescent (run (timed_deliver ?I ?D ?S))"
    by (subst timed_two_first_fails) (simp add: quiescent_def settled_def)
  have s: "starts (timed_deliver ?I ?D ?S) = [0, 500]"
    by (subst timed_two_first_fails) simp
  have z: "0 < length ?I \<and> settled (tasks (run (timed_deliver ?I ?D ?S)) ! 0)"
    by (subst timed_two_first_fails) (simp add: settled_def)
  have r: "tasks (run (timed_deliver ?I ?D ?S)) ! 0 = Rejected AxiosNoResponse"
    by (subst timed_two_first_fails) simp
  note t = delivery_ceiling[of ?I ?D ?S 0 0 ?L "[]"]
  from t have posts: "quiescent (run (timed_deliver ?I ?D ?S)) \<longrightarrow>
      filter is_post (log (run (timed_deliver ?I ?D ?S))) = map post_of ?I"
    by blast
  from t have stays: "0 < length ?I \<and> settled (tasks (run (timed_deliver ?I ?D ?S)) ! 0) \<longrightarrow>
      tasks (run (timed_deliver ?I ?D (?S @ ?L))) ! 0 = tasks (run (timed_deliver ?I ?D ?S)) ! 0"
    by blast
  from posts q have "filter is_post (log (run (timed_deliver ?I ?D ?S))) = map post_of ?I" by (rule mp)
  moreover from stays z have "tasks (run (timed_deliver ?I ?D (?S @ ?L))) ! 0 =
      tasks (run (timed_deliver ?I ?D ?S)) ! 0" by (rule mp)
  ultimately show ?thesis using q s z r by simp
qed

end
